theory Spec2Isabelle
  imports Main
begin

section \<open>Go library functions the shells call\<close>

text \<open>
  Go strings are byte sequences; \<open>string\<close> (a \<open>char list\<close>) models them byte for byte.
  \<open>strings.Split(s, "|")\<close> cuts at every byte \<open>|\<close> and returns one more piece than
  there are separators, so the empty string gives one empty piece.
\<close>

fun Split :: "string \<Rightarrow> char \<Rightarrow> string list" where
  "Split [] sep = [[]]"
| "Split (c # cs) sep =
     (if c = sep then [] # Split cs sep
      else (case Split cs sep of
              [] \<Rightarrow> [[c]]
            | piece # pieces \<Rightarrow> (c # piece) # pieces))"

text \<open>
  \<open>strings.TrimSpace\<close> and \<open>strings.Fields\<close> take as white space the runes that
  \<open>unicode.IsSpace\<close> accepts: tab, line feed, vertical tab, form feed, carriage return,
  space, U+0085, U+00A0, U+1680, U+2000 to U+200A, U+2028, U+2029, U+202F, U+205F and
  U+3000. A Go string holds them in UTF-8, as the byte sequences of \<open>White_Space\<close>.
  (On a string of bytes below \<open>0x80\<close> the two functions use the table \<open>asciiSpace\<close>,
  which holds the first six.)
\<close>

definition White_Space :: "string list" where
  "White_Space =
     [[CHR 0x09], [CHR 0x0A], [CHR 0x0B], [CHR 0x0C], [CHR 0x0D], [CHR 0x20],
      [CHR 0xC2, CHR 0x85], [CHR 0xC2, CHR 0xA0],
      [CHR 0xE1, CHR 0x9A, CHR 0x80],
      [CHR 0xE2, CHR 0x80, CHR 0x80], [CHR 0xE2, CHR 0x80, CHR 0x81],
      [CHR 0xE2, CHR 0x80, CHR 0x82], [CHR 0xE2, CHR 0x80, CHR 0x83],
      [CHR 0xE2, CHR 0x80, CHR 0x84], [CHR 0xE2, CHR 0x80, CHR 0x85],
      [CHR 0xE2, CHR 0x80, CHR 0x86], [CHR 0xE2, CHR 0x80, CHR 0x87],
      [CHR 0xE2, CHR 0x80, CHR 0x88], [CHR 0xE2, CHR 0x80, CHR 0x89],
      [CHR 0xE2, CHR 0x80, CHR 0x8A],
      [CHR 0xE2, CHR 0x80, CHR 0xA8], [CHR 0xE2, CHR 0x80, CHR 0xA9],
      [CHR 0xE2, CHR 0x80, CHR 0xAF],
      [CHR 0xE2, CHR 0x81, CHR 0x9F],
      [CHR 0xE3, CHR 0x80, CHR 0x80]]"

text \<open>
  Go decodes a string rune by rune; a byte that begins no valid encoding is a rune of
  its own (\<open>U+FFFD\<close>, one byte wide), which is no white space. The first byte of each
  sequence of \<open>White_Space\<close> is below \<open>0x80\<close> or one of \<open>0xC2\<close>, \<open>0xE1\<close>, \<open>0xE2\<close>,
  \<open>0xE3\<close>, and such a byte is never inside the encoding of another rune: the bytes that
  continue an encoding lie between \<open>0x80\<close> and \<open>0xBF\<close>. So a white-space rune stands
  at a position of the string exactly when one of the sequences starts there, and the
  last rune of a string is white space exactly when the string ends with one of them.
  \<open>rune_width seqs s\<close> is the length of the sequence of \<open>seqs\<close> that \<open>s\<close> starts
  with, and 0 when there is none.
\<close>

definition rune_width :: "string list \<Rightarrow> string \<Rightarrow> nat" where
  "rune_width seqs s =
     (case find (\<lambda>t. take (length t) s = t) seqs of None \<Rightarrow> 0 | Some t \<Rightarrow> length t)"

text \<open>
  \<open>trim seqs skip s\<close> takes the runes of \<open>seqs\<close> off the front of \<open>s\<close>; \<open>skip\<close>
  is the number of bytes of the rune under way that are still to be passed.
  \<open>TrimSpace\<close> takes the white space off the front and then off the end, for which
  the string and the sequences are read backwards.
\<close>

fun trim :: "string list \<Rightarrow> nat \<Rightarrow> string \<Rightarrow> string" where
  "trim seqs skip [] = []"
| "trim seqs (Suc k) (c # cs) = trim seqs k cs"
| "trim seqs 0 (c # cs) =
     (case rune_width seqs (c # cs) of
        0 \<Rightarrow> c # cs
      | Suc k \<Rightarrow> trim seqs k cs)"

definition TrimSpace :: "string \<Rightarrow> string" where
  "TrimSpace s = rev (trim (map rev White_Space) 0 (rev (trim White_Space 0 s)))"

text \<open>
  \<open>Fields_from skip s cur\<close> scans \<open>s\<close> with the bytes of the field under way in
  \<open>cur\<close> (reversed); a field ends at a white-space rune or at the end of the string.
\<close>

fun Fields_from :: "nat \<Rightarrow> string \<Rightarrow> string \<Rightarrow> string list" where
  "Fields_from skip [] cur = (if cur = [] then [] else [rev cur])"
| "Fields_from (Suc k) (c # cs) cur = Fields_from k cs cur"
| "Fields_from 0 (c # cs) cur =
     (case rune_width White_Space (c # cs) of
        0 \<Rightarrow> Fields_from 0 cs (c # cur)
      | Suc k \<Rightarrow> (if cur = [] then Fields_from k cs [] else rev cur # Fields_from k cs []))"

definition Fields :: "string \<Rightarrow> string list" where
  "Fields s = Fields_from 0 s []"

text \<open>
  Go's \<open>int\<close> has 64 bits on the platforms the shells are built for; \<open>x++\<close> wraps
  from \<open>2^63 - 1\<close> to \<open>- 2^63\<close>.
\<close>

definition wrap64 :: "int \<Rightarrow> int" where
  "wrap64 x = (x + 2 ^ 63) mod 2 ^ 64 - 2 ^ 63"

definition incr :: "int \<Rightarrow> int" where
  "incr x = wrap64 (x + 1)"

section \<open>The pipeline shell\<close>

subsection \<open>Commands and their standard streams\<close>

text \<open>
  What an \<open>exec.Cmd\<close> stream field can hold here: one of the shell's own three
  streams, an end of the \<open>k\<close>-th pipe that \<open>StdoutPipe\<close> allocated, or \<open>nil\<close>
  (the child then gets the null device).
\<close>

datatype stream = OsStdin | OsStdout | OsStderr | PipeReader nat | PipeWriter nat | NilStream

record Cmd =
  Args :: "string list"
  Stdin :: stream
  Stdout :: stream
  Stderr :: stream
  Process :: "nat option"

text \<open>\<open>exec.Command(name, args...)\<close>: \<open>Args\<close> is the name followed by the arguments.\<close>

definition exec_Command :: "string \<Rightarrow> string list \<Rightarrow> Cmd" where
  "exec_Command name args =
     \<lparr>Args = name # args, Stdin = NilStream, Stdout = NilStream, Stderr = NilStream,
      Process = None\<rparr>"

subsection \<open>Building the pipeline: the loop of \<open>executeCommand\<close>\<close>

text \<open>
  The loop's variables: \<open>inputPipe\<close>, \<open>cmds\<close>, and the number of pipes that
  \<open>StdoutPipe\<close> has allocated so far, which names the next pipe.
\<close>

record builder =
  inputPipe :: stream
  cmds :: "Cmd list"
  pipes :: nat

text \<open>
  How the loop ends: it falls through to \<open>runCommands\<close> with the commands built, or it
  leaves \<open>executeCommand\<close> from inside at a built-in or at a failing \<open>StdoutPipe\<close>.
\<close>

datatype built =
    Built builder
  | BuiltinExit
  | BuiltinHistory
  | BuiltinCd "string list"
  | PipeError string

text \<open>
  \<open>executeCommand_loop pipe n i commands b\<close> runs the iterations for the pieces
  \<open>commands\<close>, the first of which has index \<open>i\<close> among the \<open>n\<close> pieces of the input.
  \<open>pipe k\<close> tells whether the \<open>k\<close>-th call of \<open>StdoutPipe\<close> fails, and with which error.
\<close>

fun executeCommand_loop ::
  "(nat \<Rightarrow> string option) \<Rightarrow> nat \<Rightarrow> nat \<Rightarrow> string list \<Rightarrow> builder \<Rightarrow> built" where
  "executeCommand_loop pipe n i [] b = Built b"
| "executeCommand_loop pipe n i (command # rest) b =
     (case Fields (TrimSpace command) of
        [] \<Rightarrow> executeCommand_loop pipe n (i + 1) rest b
      | name # args \<Rightarrow>
          if name = ''exit'' then BuiltinExit
          else if name = ''history'' then BuiltinHistory
          else if name = ''cd'' then BuiltinCd (name # args)
          else
            let cmd = (exec_Command name args)\<lparr>Stdin := inputPipe b, Stderr := OsStderr\<rparr> in
            if int i < int n - 1
            then (case pipe (pipes b) of
                    Some err \<Rightarrow> PipeError err
                  | None \<Rightarrow>
                      executeCommand_loop pipe n (i + 1) rest
                        \<lparr>inputPipe = PipeReader (pipes b),
                         cmds = cmds b @ [cmd\<lparr>Stdout := PipeWriter (pipes b)\<rparr>],
                         pipes = pipes b + 1\<rparr>)
            else
              executeCommand_loop pipe n (i + 1) rest
                (b\<lparr>cmds := cmds b @ [cmd\<lparr>Stdout := OsStdout\<rparr>]\<rparr>))"

definition executeCommand_build :: "(nat \<Rightarrow> string option) \<Rightarrow> string \<Rightarrow> built" where
  "executeCommand_build pipe input =
     (let commands = Split input CHR ''|'' in
      executeCommand_loop pipe (length commands) 0 commands
        \<lparr>inputPipe = OsStdin, cmds = [], pipes = 0\<rparr>)"

subsection \<open>The shell, and what the operating system answers\<close>

record Shell =
  history :: "string list"
  historyFile :: string
  currentDir :: string
  interruptCount :: int



text \<open>
  The answers of the operating system during one command: whether the \<open>k\<close>-th
  \<open>StdoutPipe\<close> fails, whether \<open>Start\<close> of the \<open>i\<close>-th command fails or which process
  it creates, what \<open>Wait\<close> on the \<open>i\<close>-th command returns, in which order the results of
  the waiting goroutines arrive on \<open>done\<close> (a stage whose process never ends is not in
  the list), and what \<open>os.Chdir\<close> and \<open>os.Getwd\<close> return.
\<close>

record world =
  pipe :: "nat \<Rightarrow> string option"
  start :: "nat \<Rightarrow> string + nat"
  wait :: "nat \<Rightarrow> string option"
  arrival :: "nat list"
  chdir :: "string \<Rightarrow> string option"
  getwd :: "string + string"

text \<open>
  A process ends the shell with \<open>os.Exit\<close>; both places that do so call
  \<open>saveHistory\<close> first, which hands \<open>s.history\<close> to \<open>writeHistory\<close>. \<open>Exited c h\<close>
  is the exit with code \<open>c\<close> after \<open>saveHistory\<close> ran on the history \<open>h\<close>.
  \<open>Panicked\<close> is the end of the process by a run-time panic (an index out of range,
  closing a closed channel).
\<close>

datatype 'a outcome = Exited int "string list" | Panicked | Continue 'a

subsection \<open>\<open>runCommands\<close>\<close>

text \<open>
  What \<open>runCommands\<close> and the goroutines it creates do to the processes of the
  stages, in the order in which it happens: \<open>Start i\<close> is a successful \<open>cmd.Start()\<close> on
  the \<open>i\<close>-th command, \<open>Wait i\<close> is the \<open>cmd.Wait()\<close> on it, called from the goroutine
  of that stage and recorded when it returns.
\<close>

datatype event = Start nat | Wait nat

text \<open>The first loop: start the commands in order, return at the first failure.\<close>

fun start_loop :: "world \<Rightarrow> nat \<Rightarrow> Cmd list \<Rightarrow> string option \<times> Cmd list \<times> event list" where
  "start_loop w i [] = (None, [], [])"
| "start_loop w i (cmd # rest) =
     (case start w i of
        Inl err \<Rightarrow> (Some (''error starting command: '' @ err), cmd # rest, [])
      | Inr pid \<Rightarrow>
          (case start_loop w (i + 1) rest of
             (e, cs, evs) \<Rightarrow> (e, cmd\<lparr>Process := Some pid\<rparr> # cs, Start i # evs)))"

text \<open>
  The results that arrive on \<open>done\<close>: one per stage at most, and only of the \<open>n\<close>
  stages there are.
\<close>

definition arrivals :: "world \<Rightarrow> nat \<Rightarrow> nat list" where
  "arrivals w n = filter (\<lambda>i. i < n) (remdups (arrival w))"

text \<open>
  The last loop receives one result for each command and returns at the first error.
  When no further result arrives it blocks for ever: \<open>None\<close>.
\<close>

fun receive_loop :: "world \<Rightarrow> nat \<Rightarrow> nat list \<Rightarrow> string option option" where
  "receive_loop w 0 arrived = Some None"
| "receive_loop w (Suc k) [] = None"
| "receive_loop w (Suc k) (i # arrived) =
     (case wait w i of
        Some err \<Rightarrow> Some (Some (''error waiting for command: '' @ err))
      | None \<Rightarrow> receive_loop w k arrived)"

text \<open>
  The result of \<open>runCommands\<close>: the error it returns (\<open>returned = None\<close> when it never
  returns), the events on the processes, the commands as \<open>Start\<close> left them, and the
  commands handed to the \<open>handleSignals\<close> goroutine when one was created, which is
  when every stage has started.
\<close>

record ran =
  returned :: "string option option"
  trace :: "event list"
  started :: "Cmd list"
  handler :: "Cmd list option"

definition runCommands :: "world \<Rightarrow> Cmd list \<Rightarrow> ran" where
  "runCommands w cs =
     (case start_loop w 0 cs of
        (Some err, cs', evs) \<Rightarrow>
          \<lparr>returned = Some (Some err), trace = evs, started = cs', handler = None\<rparr>
      | (None, cs', evs) \<Rightarrow>
          \<lparr>returned = receive_loop w (length cs') (arrivals w (length cs')),
           trace = evs @ map Wait (arrivals w (length cs')),
           started = cs', handler = Some cs'\<rparr>)"

text \<open>
  The stages whose process was started and that no \<open>Wait\<close> has collected.
\<close>

fun started_stages :: "event list \<Rightarrow> nat list" where
  "started_stages [] = []"
| "started_stages (Start i # evs) = i # started_stages evs"
| "started_stages (Wait i # evs) = started_stages evs"

definition unreaped :: "event list \<Rightarrow> nat list" where
  "unreaped evs = [i \<leftarrow> started_stages evs. Wait i \<notin> set evs]"

subsection \<open>\<open>handleSignals\<close>, the built-ins and \<open>Run\<close>\<close>


definition maxHistorySize :: nat where
  "maxHistorySize = 1000"

definition addToHistory :: "'a Shell_scheme \<Rightarrow> string \<Rightarrow> 'a Shell_scheme" where
  "addToHistory s command =
     (let h = history s @ [command] in
      s\<lparr>history := (if length h > maxHistorySize then drop (length h - maxHistorySize) h else h)\<rparr>)"







subsection \<open>A session of the pipeline shell\<close>





section \<open>The job-control shell\<close>

subsection \<open>Jobs, their waiters, and the shell\<close>

text \<open>
  What \<open>job.cmd.Wait()\<close> returns in \<open>waitForJob\<close>: \<open>nil\<close>, an \<open>*exec.ExitError\<close>
  with its \<open>ExitCode()\<close>, or another error.
\<close>

datatype wait_result = WaitNil | ExitError int | WaitFailed

text \<open>
  The process of a background job, as the kernel keeps it for the shell: running;
  ended and not yet collected, with the exit code that \<open>ExitCode()\<close> reports for it
  (\<open>-1\<close> when a signal ended it); or collected by a wait call, after which the kernel
  knows it no longer.
\<close>

datatype child = Alive | Zombie int | Collected

text \<open>
  \<open>Wait\<close> on a process that has ended and is not collected returns \<open>nil\<close> for the
  exit code 0 and an \<open>*exec.ExitError\<close> otherwise.
\<close>

definition wait_status :: "int \<Rightarrow> wait_result" where
  "wait_status c = (if c = 0 then WaitNil else ExitError c)"

text \<open>
  Where the goroutine \<open>waitForJob\<close> of a job stands: blocked in \<open>Wait\<close>; back from
  \<open>Wait\<close> with its result, before the \<open>select\<close>; in the \<open>default\<close> branch of the
  \<open>select\<close>, before the assignment to \<open>job.status\<close>; finished.
\<close>

datatype waiter = Waiting | Returned wait_result | Reporting wait_result | Finished

text \<open>
  \<open>stopChan\<close> is a channel that is only ever closed: the field says whether it is.
  The environment of a command (\<open>cmd.Env\<close>) and what the shell prints are left out of
  the model.
\<close>

record Job =
  cmd :: Cmd
  status :: string
  jobID :: int
  stopChan :: bool

text \<open>
  \<open>s.jobs\<close> maps an id to a pointer to a \<open>Job\<close>, and the goroutine of a job keeps the
  pointer after \<open>fg\<close> has deleted the entry: the \<open>Job\<close> objects live in \<open>heap\<close>, in
  the order of their allocation, and a pointer is an index into it. \<open>waiters\<close> holds the
  state of the goroutine of each \<open>Job\<close> object, and \<open>children\<close> its process, at the
  same index.
\<close>

record JShell = Shell +
  env :: "string \<rightharpoonup> string"
  aliases :: "string \<rightharpoonup> string"
  jobs :: "int \<rightharpoonup> nat"
  nextJobID :: int
  variables :: "string \<rightharpoonup> string"
  heap :: "Job list"
  waiters :: "waiter list"
  children :: "child list"

definition NewShell :: "string list \<Rightarrow> string \<Rightarrow> string \<Rightarrow> JShell" where
  "NewShell hist file dir =
     \<lparr>history = hist, historyFile = file, currentDir = dir, interruptCount = 0,
      env = Map.empty, aliases = Map.empty, jobs = Map.empty, nextJobID = 1,
      variables = Map.empty, heap = [], waiters = [], children = []\<rparr>"

text \<open>
  What the libraries and the operating system answer during one command of this shell:
  the input after the replacement of the variables (the order in which Go walks the map
  of variables is not fixed), \<open>shellquote.Split\<close>, \<open>fmt.Sscanf\<close> with \<open>"%d"\<close>,
  \<open>os.ExpandEnv\<close>, \<open>Start\<close> of a background command, \<open>Run\<close> of a foreground command,
  \<open>os.Chdir\<close> and \<open>os.Getwd\<close>. A foreground command that never ends, or a job that
  \<open>fg\<close> waits for in vain, keeps \<open>Run\<close> from reading another line and changes the
  shell no further; the functions below give the shell as it is then.
\<close>

record jworld =
  expand :: "(string \<rightharpoonup> string) \<Rightarrow> string \<Rightarrow> string"
  quote_split :: "string \<Rightarrow> string + string list"
  scan_d :: "string \<Rightarrow> int option"
  expand_env :: "string \<Rightarrow> string"
  start_bg :: "string + nat"
  run_fg :: "string option"
  chdir_to :: "string \<Rightarrow> string option"
  getwd_now :: "string + string"

subsection \<open>Formatting an exit code\<close>

definition digit :: "nat \<Rightarrow> char" where
  "digit k = ''0123456789'' ! k"

text \<open>
  The decimal digits of a natural number below \<open>10 ^ Suc fuel\<close>; exit codes have three
  digits at most, and \<open>fmt_d\<close> gives twenty.
\<close>

fun fmt_nat :: "nat \<Rightarrow> nat \<Rightarrow> string" where
  "fmt_nat 0 n = [digit (n mod 10)]"
| "fmt_nat (Suc fuel) n = (if n < 10 then [digit n] else fmt_nat fuel (n div 10) @ [digit (n mod 10)])"

definition fmt_d :: "int \<Rightarrow> string" where
  "fmt_d i = (if i < 0 then CHR ''-'' # fmt_nat 19 (nat (- i)) else fmt_nat 19 (nat i))"

subsection \<open>\<open>runExternal\<close> and \<open>waitForJob\<close>\<close>

definition runExternal :: "jworld \<Rightarrow> JShell \<Rightarrow> string list \<Rightarrow> (string option \<times> JShell) outcome" where
  "runExternal w s parts0 =
     (let background = (parts0 ! (length parts0 - 1) = ''&'');
          parts = (if background then butlast parts0 else parts0)
      in case parts of
           [] \<Rightarrow> Panicked
         | name # args \<Rightarrow>
             if background then
               (case start_bg w of
                  Inl err \<Rightarrow> Continue (Some err, s)
                | Inr pid \<Rightarrow>
                    let c = (exec_Command name args)
                              \<lparr>Stdin := NilStream, Stdout := NilStream, Stderr := NilStream,
                               Process := Some pid\<rparr>;
                        job = \<lparr>cmd = c, status = ''Running'', jobID = nextJobID s,
                               stopChan = False\<rparr>
                    in Continue (None,
                         s\<lparr>jobs := (jobs s)(nextJobID s \<mapsto> length (heap s)),
                           nextJobID := incr (nextJobID s),
                           heap := heap s @ [job],
                           waiters := waiters s @ [Waiting],
                           children := children s @ [Alive]\<rparr>))
             else Continue (run_fg w, s))"

text \<open>The status that \<open>waitForJob\<close> writes for a result of \<open>Wait\<close>.\<close>

definition status_of :: "wait_result \<Rightarrow> string" where
  "status_of r =
     (case r of
        ExitError c \<Rightarrow> ''Exited ('' @ fmt_d c @ '')''
      | WaitFailed \<Rightarrow> ''Errored''
      | WaitNil \<Rightarrow> ''Done'')"

text \<open>
  The three steps of the goroutine \<open>waitForJob(job)\<close> for the \<open>Job\<close> at address \<open>a\<close>:
  \<open>Wait\<close> returns; the \<open>select\<close> reads \<open>stopChan\<close>; the \<open>default\<close> branch writes
  the status. A step of a goroutine that is not at that point changes nothing.

  \<open>Wait\<close> returns once the process has ended. It collects the process and returns
  according to the exit code; when the process has been collected before, the wait
  call of \<open>Wait\<close> fails (\<open>no child processes\<close>) and \<open>Wait\<close> returns that error, which
  is no \<open>*exec.ExitError\<close>.
\<close>

definition waitForJob_wait :: "nat \<Rightarrow> JShell \<Rightarrow> JShell" where
  "waitForJob_wait a s =
     (if a < length (waiters s) \<and> a < length (children s) \<and> waiters s ! a = Waiting then
        (case children s ! a of
           Alive \<Rightarrow> s
         | Zombie c \<Rightarrow>
             s\<lparr>waiters := (waiters s)[a := Returned (wait_status c)],
               children := (children s)[a := Collected]\<rparr>
         | Collected \<Rightarrow> s\<lparr>waiters := (waiters s)[a := Returned WaitFailed]\<rparr>)
      else s)"

definition waitForJob_select :: "nat \<Rightarrow> JShell \<Rightarrow> JShell" where
  "waitForJob_select a s =
     (if a < length (waiters s) \<and> a < length (heap s) then
        (case waiters s ! a of
           Returned r \<Rightarrow>
             if stopChan (heap s ! a) then s\<lparr>waiters := (waiters s)[a := Finished]\<rparr>
             else s\<lparr>waiters := (waiters s)[a := Reporting r]\<rparr>
         | _ \<Rightarrow> s)
      else s)"

definition waitForJob_report :: "nat \<Rightarrow> JShell \<Rightarrow> JShell" where
  "waitForJob_report a s =
     (if a < length (waiters s) \<and> a < length (heap s) then
        (case waiters s ! a of
           Reporting r \<Rightarrow>
             s\<lparr>heap := (heap s)[a := (heap s ! a)\<lparr>status := status_of r\<rparr>],
               waiters := (waiters s)[a := Finished]\<rparr>
         | _ \<Rightarrow> s)
      else s)"

subsection \<open>The built-ins\<close>

text \<open>\<open>strings.SplitN(s, "=", 2)\<close>: cut at the first \<open>=\<close>, if there is one.\<close>

definition SplitN2 :: "string \<Rightarrow> char \<Rightarrow> string list" where
  "SplitN2 s sep =
     (case dropWhile (\<lambda>c. c \<noteq> sep) s of
        [] \<Rightarrow> [s]
      | _ # after \<Rightarrow> [takeWhile (\<lambda>c. c \<noteq> sep) s, after])"

definition changeDirectory_jobs :: "jworld \<Rightarrow> JShell \<Rightarrow> string list \<Rightarrow> string option \<times> JShell" where
  "changeDirectory_jobs w s parts =
     (if length parts < 2 then (Some ''cd: missing argument'', s)
      else
        let path = expand_env w (parts ! 1) in
        case chdir_to w path of
          Some err \<Rightarrow> (Some (''cd: '' @ path @ '': '' @ err), s)
        | None \<Rightarrow>
            (case getwd_now w of
               Inl err \<Rightarrow> (Some (''error getting current directory: '' @ err), s\<lparr>currentDir := []\<rparr>)
             | Inr dir \<Rightarrow> (None, s\<lparr>currentDir := dir\<rparr>)))"

definition exportVar :: "JShell \<Rightarrow> string list \<Rightarrow> string option \<times> JShell" where
  "exportVar s parts =
     (if length parts \<noteq> 2 then (Some ''export: invalid syntax'', s)
      else case SplitN2 (parts ! 1) CHR ''='' of
             [k, v] \<Rightarrow> (None, s\<lparr>env := (env s)(k \<mapsto> v)\<rparr>)
           | _ \<Rightarrow> (Some ''export: invalid syntax'', s))"

definition setAlias :: "JShell \<Rightarrow> string list \<Rightarrow> string option \<times> JShell" where
  "setAlias s parts =
     (if length parts \<noteq> 2 then (Some ''alias: invalid syntax'', s)
      else case SplitN2 (parts ! 1) CHR ''='' of
             [k, v] \<Rightarrow> (None, s\<lparr>aliases := (aliases s)(k \<mapsto> v)\<rparr>)
           | _ \<Rightarrow> (Some ''alias: invalid syntax'', s))"

definition setVariable :: "JShell \<Rightarrow> string list \<Rightarrow> string option \<times> JShell" where
  "setVariable s parts =
     (if length parts \<noteq> 2 then (Some ''set: invalid syntax'', s)
      else case SplitN2 (parts ! 1) CHR ''='' of
             [k, v] \<Rightarrow> (None, s\<lparr>variables := (variables s)(k \<mapsto> v)\<rparr>)
           | _ \<Rightarrow> (Some ''set: invalid syntax'', s))"

text \<open>
  \<open>fg\<close>: the entry is deleted, \<open>stopChan\<close> is closed (closing it twice would panic),
  the streams of the command are set, and the shell waits for the process; what that
  \<open>Wait\<close> returns is printed only.
\<close>

definition foregroundJob :: "jworld \<Rightarrow> JShell \<Rightarrow> string list \<Rightarrow> (string option \<times> JShell) outcome" where
  "foregroundJob w s parts =
     (if length parts \<noteq> 2 then Continue (Some ''fg: invalid syntax'', s)
      else case scan_d w (parts ! 1) of
             None \<Rightarrow> Continue (Some ''fg: invalid job ID'', s)
           | Some jid \<Rightarrow>
               (case jobs s jid of
                  None \<Rightarrow> Continue (Some ''fg: job not found'', s)
                | Some a \<Rightarrow>
                    if stopChan (heap s ! a) then Panicked
                    else
                      let job = heap s ! a;
                          c = (cmd job)\<lparr>Stdin := OsStdin, Stdout := OsStdout, Stderr := OsStderr\<rparr>
                      in Continue (None,
                           s\<lparr>jobs := (jobs s)(jid := None),
                             heap := (heap s)[a := job\<lparr>stopChan := True, cmd := c\<rparr>]\<rparr>)))"

definition backgroundJob :: "jworld \<Rightarrow> JShell \<Rightarrow> string list \<Rightarrow> string option \<times> JShell" where
  "backgroundJob w s parts =
     (if length parts \<noteq> 2 then (Some ''bg: invalid syntax'', s)
      else case scan_d w (parts ! 1) of
             None \<Rightarrow> (Some ''bg: invalid job ID'', s)
           | Some jid \<Rightarrow>
               (case jobs s jid of
                  None \<Rightarrow> (Some ''bg: job not found'', s)
                | Some a \<Rightarrow>
                    if status (heap s ! a) \<noteq> ''Stopped'' then (Some ''bg: job is not stopped'', s)
                    else (None, s\<lparr>heap := (heap s)[a := (heap s ! a)\<lparr>status := ''Running''\<rparr>]\<rparr>)))"

subsection \<open>\<open>executeCommand\<close>, \<open>Run\<close> and \<open>handleSignals\<close> of the job-control shell\<close>

text \<open>
  The \<open>switch\<close> of \<open>executeCommand\<close> on \<open>parts[0]\<close>; \<open>history\<close> and \<open>jobs\<close> only
  print. An alias that expands to nothing can leave \<open>parts\<close> empty, and \<open>parts[0]\<close>
  panics then.
\<close>

definition executeCommand_switch :: "jworld \<Rightarrow> JShell \<Rightarrow> string list \<Rightarrow> (string option \<times> JShell) outcome" where
  "executeCommand_switch w s parts =
     (case parts of
        [] \<Rightarrow> Panicked
      | name # _ \<Rightarrow>
          if name = ''exit'' then Exited 0 (history s)
          else if name = ''history'' then Continue (None, s)
          else if name = ''cd'' then Continue (changeDirectory_jobs w s parts)
          else if name = ''export'' then Continue (exportVar s parts)
          else if name = ''alias'' then Continue (setAlias s parts)
          else if name = ''jobs'' then Continue (None, s)
          else if name = ''fg'' then foregroundJob w s parts
          else if name = ''bg'' then Continue (backgroundJob w s parts)
          else if name = ''set'' then Continue (setVariable s parts)
          else runExternal w s parts)"

definition executeCommand_jobs :: "jworld \<Rightarrow> JShell \<Rightarrow> string \<Rightarrow> (string option \<times> JShell) outcome" where
  "executeCommand_jobs w s input =
     (case quote_split w (expand w (variables s) input) of
        Inl err \<Rightarrow> Continue (Some (''error parsing command: '' @ err), s)
      | Inr parts \<Rightarrow>
          if parts = [] then Continue (None, s)
          else
            (case aliases s (hd parts) of
               None \<Rightarrow> executeCommand_switch w s parts
             | Some alias \<Rightarrow>
                 (case quote_split w alias of
                    Inl err \<Rightarrow> Continue (Some (''error parsing alias: '' @ err), s)
                  | Inr aliasParts \<Rightarrow> executeCommand_switch w s (aliasParts @ tl parts))))"

text \<open>What \<open>rl.Readline()\<close> returns.\<close>

datatype readline = ErrInterrupt | EOF | Line string

text \<open>
  One iteration of the loop of \<open>Run\<close>. Leaving the loop runs \<open>saveHistory\<close> and
  returns from \<open>main\<close>, which ends the process with code 0.
\<close>

definition Run_iteration_jobs :: "jworld \<Rightarrow> JShell \<Rightarrow> readline \<Rightarrow> JShell outcome" where
  "Run_iteration_jobs w s read =
     (case read of
        ErrInterrupt \<Rightarrow>
          let s1 = s\<lparr>interruptCount := incr (interruptCount s)\<rparr> in
          if interruptCount s1 \<ge> 2 then Exited 0 (history s1) else Continue s1
      | EOF \<Rightarrow> Exited 0 (history s)
      | Line l \<Rightarrow>
          let line = TrimSpace l in
          if line = [] then Continue s
          else
            (case executeCommand_jobs w (addToHistory s line) line of
               Exited c h \<Rightarrow> Exited c h
             | Panicked \<Rightarrow> Panicked
             | Continue (err, s1) \<Rightarrow> Continue (s1\<lparr>interruptCount := 0\<rparr>)))"

text \<open>
  \<open>reapChildren\<close> calls \<open>Wait4(-1, nil, WNOHANG, nil)\<close> until no ended child is left:
  it collects every child of the shell that has ended, also one that a goroutine
  \<open>waitForJob\<close> waits for, and drops the exit status.
\<close>

definition reapChildren :: "JShell \<Rightarrow> JShell" where
  "reapChildren s =
     s\<lparr>children := map (\<lambda>ch. case ch of Zombie c \<Rightarrow> Collected | _ \<Rightarrow> ch) (children s)\<rparr>"

text \<open>
  The body of the loop of \<open>handleSignals\<close> for a signal received from \<open>signalChan\<close>:
  it prints a line on \<open>SIGINT\<close> and on \<open>SIGTSTP\<close> and runs \<open>reapChildren\<close> on
  \<open>SIGCHLD\<close>; it reads and writes no field of the shell.
\<close>

datatype signal = SIGINT | SIGTSTP | SIGCHLD

definition handleSignals_jobs :: "signal \<Rightarrow> JShell \<Rightarrow> JShell" where
  "handleSignals_jobs sig s =
     (case sig of SIGINT \<Rightarrow> s | SIGTSTP \<Rightarrow> s | SIGCHLD \<Rightarrow> reapChildren s)"

text \<open>The process of the job at address \<open>a\<close> ends with the exit code \<open>c\<close>.\<close>

definition process_ends :: "nat \<Rightarrow> int \<Rightarrow> JShell \<Rightarrow> JShell" where
  "process_ends a c s =
     (if a < length (children s) \<and> children s ! a = Alive
      then s\<lparr>children := (children s)[a := Zombie c]\<rparr> else s)"

subsection \<open>A session of the job-control shell\<close>

text \<open>
  The loop of \<open>Run\<close>, the goroutine \<open>handleSignals\<close>, which \<open>Run\<close> starts before its
  loop, and the goroutines \<open>waitForJob\<close> share the shell and take turns in any order,
  while the processes of the jobs run and end. A session is the sequence of the steps:
  an iteration of \<open>Run\<close>, a signal handled, the end of the process of the job at an
  address, or one of the three steps of the goroutine of the job at an address.
\<close>

datatype jevent =
    Read jworld readline
  | Signalled signal
  | Ends nat int
  | WaitReturns nat
  | Select nat
  | Report nat

definition jstep :: "JShell \<Rightarrow> jevent \<Rightarrow> JShell outcome" where
  "jstep s e =
     (case e of
        Read w r \<Rightarrow> Run_iteration_jobs w s r
      | Signalled sig \<Rightarrow> Continue (handleSignals_jobs sig s)
      | Ends a c \<Rightarrow> Continue (process_ends a c s)
      | WaitReturns a \<Rightarrow> Continue (waitForJob_wait a s)
      | Select a \<Rightarrow> Continue (waitForJob_select a s)
      | Report a \<Rightarrow> Continue (waitForJob_report a s))"

fun jsteps :: "JShell \<Rightarrow> jevent list \<Rightarrow> JShell outcome" where
  "jsteps s [] = Continue s"
| "jsteps s (e # es) =
     (case jstep s e of
        Continue s1 \<Rightarrow> jsteps s1 es
      | Exited c h \<Rightarrow> Exited c h
      | Panicked \<Rightarrow> Panicked)"

section \<open>The job registry of \<open>internal/shell\<close>\<close>

record Job_i =
  Command :: Cmd
  Status :: string
  ID :: int
  Background :: bool

record Shell_i =
  jobs_i :: "int \<rightharpoonup> Job_i"
  nextJobID_i :: int

text \<open>\<open>New\<close> makes the map empty and sets \<open>nextJobID\<close> to 1.\<close>

definition New :: Shell_i where
  "New = \<lparr>jobs_i = Map.empty, nextJobID_i = 1\<rparr>"

definition CreateJob :: "Shell_i \<Rightarrow> Cmd \<Rightarrow> bool \<Rightarrow> Job_i \<times> Shell_i" where
  "CreateJob s c background =
     (let job = \<lparr>Command = c, Status = ''Running'', ID = nextJobID_i s,
                 Background = background\<rparr>
      in (job, s\<lparr>jobs_i := (jobs_i s)(nextJobID_i s \<mapsto> job), nextJobID_i := incr (nextJobID_i s)\<rparr>))"

section \<open>Predicates of the statements\<close>

text \<open>
  Where the standard input of stage \<open>i\<close> comes from and where the standard output of
  stage \<open>i\<close> of \<open>n\<close> goes in a pipeline that is wired stage to stage: pipe \<open>i\<close> links
  stage \<open>i\<close> to stage \<open>i + 1\<close>.
\<close>

definition stage_source :: "nat \<Rightarrow> stream" where
  "stage_source i = (if i = 0 then OsStdin else PipeReader (i - 1))"

definition stage_sink :: "nat \<Rightarrow> nat \<Rightarrow> stream" where
  "stage_sink n i = (if i + 1 < n then PipeWriter i else OsStdout)"

definition wired :: "nat \<Rightarrow> nat \<Rightarrow> Cmd list \<Rightarrow> bool" where
  "wired n i cs \<longleftrightarrow>
     (\<forall>j<i. Stdin (cs ! j) = stage_source j \<and> Stdout (cs ! j) = stage_sink n j
            \<and> Stderr (cs ! j) = OsStderr)"

text \<open>
  The commands built before the last stage: each writes into the pipe of its number.
\<close>

definition piped :: "Cmd list \<Rightarrow> bool" where
  "piped cs \<longleftrightarrow>
     (\<forall>j<length cs. Stdin (cs ! j) = stage_source j \<and> Stdout (cs ! j) = PipeWriter j
            \<and> Stderr (cs ! j) = OsStderr)"

text \<open>The pieces of an input that have a program name, cut into their fields.\<close>

definition program_names :: "string list \<Rightarrow> string list list" where
  "program_names commands = filter (\<lambda>parts. parts \<noteq> []) (map (\<lambda>c. Fields (TrimSpace c)) commands)"

text \<open>The pipeline that the input \<open>sort | uniq | wc\<close> is built into.\<close>

definition sort_uniq_wc :: builder where
  "sort_uniq_wc =
     \<lparr>inputPipe = PipeReader 1,
      cmds = [\<lparr>Args = [''sort''], Stdin = OsStdin, Stdout = PipeWriter 0,
                Stderr = OsStderr, Process = None\<rparr>,
              \<lparr>Args = [''uniq''], Stdin = PipeReader 0, Stdout = PipeWriter 1,
                Stderr = OsStderr, Process = None\<rparr>,
              \<lparr>Args = [''wc''], Stdin = PipeReader 1, Stdout = OsStdout,
                Stderr = OsStderr, Process = None\<rparr>],
      pipes = 2\<rparr>"

text \<open>
  Two worlds for a pipeline of three stages: in the first every process starts, ends
  without error, and the results of \<open>Wait\<close> arrive in the order 2, 0, 1; in the second
  the program of stage 1 is not found.
\<close>

definition working_world :: world where
  "working_world =
     \<lparr>pipe = (\<lambda>k. None), start = (\<lambda>i. Inr (100 + i)), wait = (\<lambda>i. None),
      arrival = [2, 0, 1], chdir = (\<lambda>p. None), getwd = Inr ''/''\<rparr>"

definition failing_world :: world where
  "failing_world =
     working_world\<lparr>start := (\<lambda>i. if i = 1 then Inl ''executable file not found in $PATH''
                                  else Inr (100 + i))\<rparr>"


subsection \<open>What a step does to the jobs\<close>

text \<open>
  An iteration of \<open>Run\<close> leaves the jobs as they are (\<open>same_jobs\<close>), or registers a
  job (a background launch), or reclaims one (\<open>fg\<close>), or resumes one (\<open>bg\<close> on a job
  with status \<open>Stopped\<close>).
\<close>

definition same_jobs :: "JShell \<Rightarrow> JShell \<Rightarrow> bool" where
  "same_jobs s s' \<longleftrightarrow>
     heap s' = heap s \<and> waiters s' = waiters s \<and> children s' = children s
     \<and> jobs s' = jobs s \<and> nextJobID s' = nextJobID s"

definition registers :: "JShell \<Rightarrow> JShell \<Rightarrow> bool" where
  "registers s s' \<longleftrightarrow>
     (\<exists>job. status job = ''Running'' \<and> jobID job = nextJobID s \<and> \<not> stopChan job
        \<and> heap s' = heap s @ [job] \<and> waiters s' = waiters s @ [Waiting]
        \<and> children s' = children s @ [Alive]
        \<and> jobs s' = (jobs s)(nextJobID s \<mapsto> length (heap s))
        \<and> nextJobID s' = incr (nextJobID s))"

definition reclaims :: "JShell \<Rightarrow> JShell \<Rightarrow> bool" where
  "reclaims s s' \<longleftrightarrow>
     (\<exists>jid a c. jobs s jid = Some a \<and> \<not> stopChan (heap s ! a)
        \<and> heap s' = (heap s)[a := (heap s ! a)\<lparr>stopChan := True, cmd := c\<rparr>]
        \<and> waiters s' = waiters s \<and> children s' = children s
        \<and> jobs s' = (jobs s)(jid := None)
        \<and> nextJobID s' = nextJobID s)"

definition resumes :: "JShell \<Rightarrow> JShell \<Rightarrow> bool" where
  "resumes s s' \<longleftrightarrow>
     (\<exists>jid a. jobs s jid = Some a \<and> status (heap s ! a) = ''Stopped''
        \<and> heap s' = (heap s)[a := (heap s ! a)\<lparr>status := ''Running''\<rparr>]
        \<and> waiters s' = waiters s \<and> children s' = children s
        \<and> jobs s' = jobs s \<and> nextJobID s' = nextJobID s)"

subsection \<open>Invariants of a session\<close>

text \<open>
  Every \<open>Job\<close> object has its goroutine and its process; an entry of the table points
  to an object with the id of the entry and an open \<open>stopChan\<close>.
\<close>

definition wf_shell :: "JShell \<Rightarrow> bool" where
  "wf_shell s \<longleftrightarrow>
     length (waiters s) = length (heap s) \<and> length (children s) = length (heap s)
     \<and> (\<forall>jid a. jobs s jid = Some a \<longrightarrow>
           a < length (heap s) \<and> jobID (heap s ! a) = jid \<and> \<not> stopChan (heap s ! a))"

text \<open>
  The object at address \<open>a\<close> is the one of the registration number \<open>a\<close> (from 0),
  and ids are given out from 1 on, in Go's 64-bit arithmetic.
\<close>

definition ids_inv :: "JShell \<Rightarrow> bool" where
  "ids_inv s \<longleftrightarrow>
     nextJobID s = wrap64 (1 + int (length (heap s)))
     \<and> (\<forall>a<length (heap s). jobID (heap s ! a) = wrap64 (1 + int a))"

text \<open>No job has the status \<open>Stopped\<close>.\<close>

definition never_stopped :: "JShell \<Rightarrow> bool" where
  "never_stopped s \<longleftrightarrow> (\<forall>a<length (heap s). status (heap s ! a) \<noteq> ''Stopped'')"

text \<open>A job whose goroutine has not finished has the status \<open>Running\<close>.\<close>

definition running_inv :: "JShell \<Rightarrow> bool" where
  "running_inv s \<longleftrightarrow>
     (\<forall>a<length (heap s). waiters s ! a \<noteq> Finished \<longrightarrow> status (heap s ! a) = ''Running'')"

definition job_inv :: "JShell \<Rightarrow> bool" where
  "job_inv s \<longleftrightarrow> wf_shell s \<and> ids_inv s \<and> never_stopped s \<and> running_inv s"

text \<open>
  The goroutine of the job at address \<open>a\<close> once \<open>Wait\<close> has returned \<open>r\<close>: it is
  before the \<open>select\<close>, or past it in the \<open>default\<close> branch, or finished; and when it
  has finished, \<open>stopChan\<close> is closed or the status is the one for \<open>r\<close>.
\<close>

definition reported :: "nat \<Rightarrow> wait_result \<Rightarrow> JShell \<Rightarrow> bool" where
  "reported a r s \<longleftrightarrow>
     waiters s ! a = Finished \<and> (stopChan (heap s ! a) \<or> status (heap s ! a) = status_of r)"

definition selected :: "nat \<Rightarrow> wait_result \<Rightarrow> JShell \<Rightarrow> bool" where
  "selected a r s \<longleftrightarrow> waiters s ! a = Reporting r \<or> reported a r s"

definition back_from_wait :: "nat \<Rightarrow> wait_result \<Rightarrow> JShell \<Rightarrow> bool" where
  "back_from_wait a r s \<longleftrightarrow> waiters s ! a = Returned r \<or> selected a r s"

text \<open>
  \<open>stopChan\<close> of the job at address \<open>a\<close> was closed before its goroutine reached the
  \<open>default\<close> branch, and the status is \<open>st\<close>.
\<close>

definition stopped_in_time :: "nat \<Rightarrow> string \<Rightarrow> JShell \<Rightarrow> bool" where
  "stopped_in_time a st s \<longleftrightarrow>
     stopChan (heap s ! a) \<and> (\<forall>r. waiters s ! a \<noteq> Reporting r) \<and> status (heap s ! a) = st"

text \<open>
  The process of the job at address \<open>a\<close> has ended with the exit code \<open>c\<close> and is not
  collected, and the goroutine of the job is still in \<open>Wait\<close> (\<open>zombie\<close>); the same,
  or \<open>Wait\<close> has collected it since (\<open>ended\<close>); the process was collected while the
  goroutine was in \<open>Wait\<close>, which is still there or has returned the error (\<open>reaped\<close>).
\<close>

definition zombie :: "nat \<Rightarrow> int \<Rightarrow> JShell \<Rightarrow> bool" where
  "zombie a c s \<longleftrightarrow> children s ! a = Zombie c \<and> waiters s ! a = Waiting"

definition ended :: "nat \<Rightarrow> int \<Rightarrow> JShell \<Rightarrow> bool" where
  "ended a c s \<longleftrightarrow> zombie a c s \<or> back_from_wait a (wait_status c) s"

definition reaped :: "nat \<Rightarrow> JShell \<Rightarrow> bool" where
  "reaped a s \<longleftrightarrow>
     (children s ! a = Collected \<and> waiters s ! a = Waiting) \<or> back_from_wait a WaitFailed s"

subsection \<open>Decimal notation\<close>

definition is_digit :: "char \<Rightarrow> bool" where
  "is_digit ch \<longleftrightarrow> ch \<in> set ''0123456789''"

definition digit_value :: "char \<Rightarrow> nat" where
  "digit_value ch = of_char ch - 48"

definition decimal_value :: "string \<Rightarrow> nat" where
  "decimal_value ds = foldl (\<lambda>n ch. 10 * n + digit_value ch) 0 ds"

text \<open>
  \<open>ds\<close> is the decimal notation of a number: digits only, at least one, no zero in
  front of another digit, and the value is the number; a negative number has the sign
  \<open>-\<close> in front.
\<close>

definition decimal_of_nat :: "string \<Rightarrow> nat \<Rightarrow> bool" where
  "decimal_of_nat ds n \<longleftrightarrow>
     ds \<noteq> [] \<and> list_all is_digit ds \<and> (hd ds = CHR ''0'' \<longrightarrow> ds = ''0'')
     \<and> decimal_value ds = n"

definition decimal_of :: "string \<Rightarrow> int \<Rightarrow> bool" where
  "decimal_of ds i \<longleftrightarrow>
     (if i < 0 then ds \<noteq> [] \<and> hd ds = CHR ''-'' \<and> decimal_of_nat (tl ds) (nat (- i))
      else decimal_of_nat ds (nat i))"

subsection \<open>A world and a shell for the examples\<close>

text \<open>
  \<open>fmt.Sscanf(arg, "%d", &jobID)\<close>: white space in front of the number is passed
  over, and a line feed there is an error; then come an optional sign and the digits
  that follow, of which there must be one; \<open>strconv.ParseInt\<close> reads them as a
  decimal number of 64 bits and fails on a number out of range. What follows the
  digits is left unread.
\<close>

fun skip_space :: "nat \<Rightarrow> string \<Rightarrow> string option" where
  "skip_space skip [] = Some []"
| "skip_space (Suc k) (c # cs) = skip_space k cs"
| "skip_space 0 (c # cs) =
     (if c = CHR 0x0A then None
      else case rune_width White_Space (c # cs) of
             0 \<Rightarrow> Some (c # cs)
           | Suc k \<Rightarrow> skip_space k cs)"

definition Sscanf_d :: "string \<Rightarrow> int option" where
  "Sscanf_d arg =
     (case skip_space 0 arg of
        None \<Rightarrow> None
      | Some [] \<Rightarrow> None
      | Some (c # cs) \<Rightarrow>
          let tok = takeWhile is_digit (if c = CHR ''-'' \<or> c = CHR ''+'' then cs else c # cs);
              i = (if c = CHR ''-'' then - int (decimal_value tok) else int (decimal_value tok))
          in if tok = [] \<or> i < - (2 ^ 63) \<or> 2 ^ 63 \<le> i then None else Some i)"

text \<open>
  \<open>shellquote.Split\<close> on an input that holds no quote character and no backslash:
  the words between the blanks, tabs and line feeds.
\<close>

fun words_from :: "string \<Rightarrow> string \<Rightarrow> string list" where
  "words_from [] cur = (if cur = [] then [] else [rev cur])"
| "words_from (c # cs) cur =
     (if c \<in> set [CHR 0x20, CHR 0x0A, CHR 0x09]
      then (if cur = [] then words_from cs [] else rev cur # words_from cs [])
      else words_from cs (c # cur))"

text \<open>
  A world for a session in which no variable is set and the commands hold no quote
  character and no backslash; every start succeeds.
\<close>

definition job_world :: jworld where
  "job_world =
     \<lparr>expand = (\<lambda>vars input. input), quote_split = (\<lambda>input. Inr (words_from input [])),
      scan_d = Sscanf_d, expand_env = (\<lambda>p. p), start_bg = Inr 4242, run_fg = None,
      chdir_to = (\<lambda>p. None), getwd_now = Inr ''/''\<rparr>"

definition new_shell :: JShell where
  "new_shell = NewShell [] ''/home/u/.shell_history'' ''/''"

section \<open>Properties of the pipeline shell\<close>

subsection \<open>The wiring of a pipeline\<close>

lemma Split_not_Nil: "Split s sep \<noteq> []"
  by (induction s) (auto split: list.splits)

lemma piped_snoc:
  "piped cs \<Longrightarrow> Stdin c = stage_source (length cs) \<Longrightarrow> Stdout c = PipeWriter (length cs) \<Longrightarrow>
   Stderr c = OsStderr \<Longrightarrow> piped (cs @ [c])"
  by (auto simp: piped_def nth_append less_Suc_eq)

lemma piped_last:
  "piped cs \<Longrightarrow> Stdin c = stage_source (length cs) \<Longrightarrow> Stdout c = OsStdout \<Longrightarrow>
   Stderr c = OsStderr \<Longrightarrow> wired (Suc (length cs)) (Suc (length cs)) (cs @ [c])"
  by (auto simp: piped_def wired_def stage_sink_def nth_append less_Suc_eq)

text \<open>
  The invariant of the loop before the last piece: the pieces with a program name so
  far have each become a command that writes into a pipe of its own, and \<open>inputPipe\<close>
  is the reading end of the last of these pipes. The last piece, when it has a program
  name, becomes the command that writes to the shell's standard output.
\<close>

lemma loop_wires:
  assumes "executeCommand_loop alloc n i rest b = Built b'"
    and "i + length rest = n"
    and "rest \<noteq> []"
    and "Fields (TrimSpace (last rest)) \<noteq> []"
    and "pipes b = length (cmds b)"
    and "inputPipe b = stage_source (length (cmds b))"
    and "piped (cmds b)"
  shows "cmds b' \<noteq> [] \<and> pipes b' = length (cmds b') - 1
       \<and> wired (length (cmds b')) (length (cmds b')) (cmds b')
       \<and> map Args (cmds b') = map Args (cmds b) @ program_names rest"
  using assms
proof (induction rest arbitrary: i b)
  case Nil
  then show ?case by simp
next
  case (Cons c rest)
  let ?k = "length (cmds b)"
  show ?case
  proof (cases "rest = []")
    case True
    with Cons.prems(4) obtain name args where f: "Fields (TrimSpace c) = name # args"
      by (cases "Fields (TrimSpace c)") auto
    from True Cons.prems(2) have last: "\<not> int i < int n - 1" by auto
    let ?cmd = "(exec_Command name args)\<lparr>Stdin := inputPipe b, Stderr := OsStderr, Stdout := OsStdout\<rparr>"
    from Cons.prems(1) f last True have b': "b' = b\<lparr>cmds := cmds b @ [?cmd]\<rparr>"
      by (auto simp: Let_def split: if_splits)
    have w: "wired (Suc ?k) (Suc ?k) (cmds b @ [?cmd])"
      by (rule piped_last [OF Cons.prems(7)]) (simp_all add: Cons.prems(6))
    show ?thesis
      using b' w Cons.prems(5) True f by (simp add: program_names_def exec_Command_def)
  next
    case False
    with Cons.prems(2) have more: "int i < int n - 1" by (cases rest) auto
    from False Cons.prems(4) have l: "Fields (TrimSpace (last rest)) \<noteq> []" by simp
    from Cons.prems(2) have idx: "i + 1 + length rest = n" by simp
    show ?thesis
    proof (cases "Fields (TrimSpace c)")
      case Nil
      with Cons.prems(1) have run: "executeCommand_loop alloc n (i + 1) rest b = Built b'" by simp
      from Cons.IH [OF run idx False l Cons.prems(5,6,7)] Nil
      show ?thesis by (simp add: program_names_def)
    next
      case (Cons name args)
      let ?cmd = "(exec_Command name args)\<lparr>Stdin := inputPipe b, Stderr := OsStderr,
                    Stdout := PipeWriter (pipes b)\<rparr>"
      let ?b1 = "\<lparr>inputPipe = PipeReader (pipes b), cmds = cmds b @ [?cmd], pipes = pipes b + 1\<rparr>"
      from Cons.prems(1) Cons more
      have run: "executeCommand_loop alloc n (i + 1) rest ?b1 = Built b'"
        by (auto simp: Let_def split: if_splits option.splits)
      have p1: "pipes ?b1 = length (cmds ?b1)" using Cons.prems(5) by simp
      have s1: "inputPipe ?b1 = stage_source (length (cmds ?b1))"
        using Cons.prems(5) by (simp add: stage_source_def)
      have w1: "piped (cmds ?b1)"
        using piped_snoc [OF Cons.prems(7), of ?cmd] Cons.prems(5,6) by simp
      from Cons.IH [OF run idx False l p1 s1 w1] Cons
      show ?thesis by (simp add: program_names_def exec_Command_def)
    qed
  qed
qed

text \<open>
  The wiring of a pipeline whose last piece has a program name. When the loop of
  \<open>executeCommand\<close> goes through to \<open>runCommands\<close> on such an input, the commands
  it has built are the pieces with a program name, in their order; for these \<open>n\<close>
  stages it has allocated \<open>n - 1\<close> pipes (none for \<open>n = 1\<close>); pipe \<open>i\<close> takes the
  standard output of stage \<open>i\<close> to the standard input of stage \<open>i + 1\<close>, the first
  stage reads the shell's standard input and the last stage writes to the shell's
  standard output. When every piece has a program name there is one stage for each
  piece.
\<close>

lemma pipeline_wiring:
  assumes "executeCommand_build alloc input = Built b"
    and "Fields (TrimSpace (last (Split input CHR ''|''))) \<noteq> []"
  shows "map Args (cmds b) = program_names (Split input CHR ''|'')
       \<and> 1 \<le> length (cmds b)
       \<and> pipes b = length (cmds b) - 1
       \<and> (\<forall>i. i + 1 < length (cmds b) \<longrightarrow>
             Stdout (cmds b ! i) = PipeWriter i \<and> Stdin (cmds b ! (i + 1)) = PipeReader i)
       \<and> Stdin (cmds b ! 0) = OsStdin
       \<and> Stdout (last (cmds b)) = OsStdout
       \<and> ((\<forall>command\<in>set (Split input CHR ''|''). Fields (TrimSpace command) \<noteq> [])
            \<longrightarrow> length (cmds b) = length (Split input CHR ''|''))"
proof -
  let ?cs = "Split input CHR ''|''"
  let ?n = "length (cmds b)"
  have "cmds b \<noteq> [] \<and> pipes b = ?n - 1 \<and> wired ?n ?n (cmds b)
      \<and> map Args (cmds b) = map Args (cmds \<lparr>inputPipe = OsStdin, cmds = [], pipes = 0\<rparr>) @ program_names ?cs"
    apply (rule loop_wires [where i = 0 and n = "length ?cs" and alloc = alloc])
    using assms by (simp_all add: executeCommand_build_def Let_def Split_not_Nil piped_def stage_source_def)
  then have ne: "cmds b \<noteq> []" and p: "pipes b = ?n - 1" and w: "wired ?n ?n (cmds b)"
    and args: "map Args (cmds b) = program_names ?cs" by simp_all
  from ne have pos: "0 < ?n" by simp
  then have n: "1 \<le> ?n" by (simp add: Suc_le_eq)
  have l: "last (cmds b) = cmds b ! (?n - 1)" using ne by (simp add: last_conv_nth)
  have all: "\<And>j. j < ?n \<Longrightarrow>
      Stdin (cmds b ! j) = stage_source j \<and> Stdout (cmds b ! j) = stage_sink ?n j"
    using w by (simp add: wired_def)
  have first: "Stdin (cmds b ! 0) = OsStdin"
    using all [OF pos] by (simp add: stage_source_def)
  have final: "Stdout (last (cmds b)) = OsStdout"
  proof -
    have "?n - 1 < ?n" using pos by simp
    from all [OF this] show ?thesis using l by (simp add: stage_sink_def)
  qed
  have mid: "\<And>i. i + 1 < ?n \<Longrightarrow>
      Stdout (cmds b ! i) = PipeWriter i \<and> Stdin (cmds b ! (i + 1)) = PipeReader i"
  proof -
    fix i assume i: "i + 1 < ?n"
    then show "Stdout (cmds b ! i) = PipeWriter i \<and> Stdin (cmds b ! (i + 1)) = PipeReader i"
      using all [of i] all [of "i + 1"] by (simp add: stage_source_def stage_sink_def)
  qed
  have full: "\<forall>command\<in>set ?cs. Fields (TrimSpace command) \<noteq> [] \<Longrightarrow> ?n = length ?cs"
  proof -
    assume "\<forall>command\<in>set ?cs. Fields (TrimSpace command) \<noteq> []"
    then have "program_names ?cs = map (\<lambda>c. Fields (TrimSpace c)) ?cs"
      by (auto simp: program_names_def filter_id_conv)
    with args have "length (map Args (cmds b)) = length (map (\<lambda>c. Fields (TrimSpace c)) ?cs)" by simp
    then show ?thesis by simp
  qed
  show ?thesis
    using args p n first final mid full by simp
qed

text \<open>The definitions that evaluate the Go library functions on a given string.\<close>

lemmas go_strings = TrimSpace_def Fields_def rune_width_def White_Space_def

text \<open>The pipeline \<open>sort | uniq | wc\<close>: three commands, two pipes.\<close>

lemma build_sort_uniq_wc:
  "executeCommand_build (\<lambda>k. None) ''sort | uniq | wc'' = Built sort_uniq_wc"
  by (simp add: executeCommand_build_def go_strings exec_Command_def sort_uniq_wc_def)

lemma last_sort_uniq_wc:
  "Fields (TrimSpace (last (Split ''sort | uniq | wc'' CHR ''|''))) \<noteq> []"
  by (simp add: go_strings)

lemma wiring_sort_uniq_wc:
  "length (cmds sort_uniq_wc) = 3 \<and> pipes sort_uniq_wc = 2
     \<and> Stdout (cmds sort_uniq_wc ! 0) = PipeWriter 0 \<and> Stdin (cmds sort_uniq_wc ! 1) = PipeReader 0
     \<and> Stdout (cmds sort_uniq_wc ! 1) = PipeWriter 1 \<and> Stdin (cmds sort_uniq_wc ! 2) = PipeReader 1
     \<and> Stdin (cmds sort_uniq_wc ! 0) = OsStdin \<and> Stdout (last (cmds sort_uniq_wc)) = OsStdout"
  using pipeline_wiring [OF build_sort_uniq_wc last_sort_uniq_wc]
  by (simp add: sort_uniq_wc_def)

text \<open>
  C1. The claim is that an input which the builder turns into \<open>n\<close> stages gets
  exactly \<open>n - 1\<close> pipes, pipe \<open>i\<close> from the standard output of stage \<open>i\<close> to the
  standard input of stage \<open>i + 1\<close>, with the last stage on the shell's standard output.
  The loop passes over a piece without a program name, and yet it decides with
  \<open>i < len(commands)-1\<close>, on the index among all the pieces, whether a stage is the
  last one. So on \<open>ls |\<close>, which goes through to \<open>runCommands\<close>, there is one stage
  and one pipe, and the stage writes into that pipe, which no stage reads; on
  \<open>sort | uniq |\<close> there are two stages and two pipes. A piece of white space only,
  here the no-break space \<open>U+00A0\<close>, is a piece without a program name as well.
\<close>

theorem trailing_separator_extra_pipe:
  "(case executeCommand_build (\<lambda>k. None) ''ls |'' of
      Built b \<Rightarrow> map Args (cmds b) = [[''ls'']] \<and> pipes b = 1
        \<and> Stdout (last (cmds b)) = PipeWriter 0
    | _ \<Rightarrow> False)
   \<and> (case executeCommand_build (\<lambda>k. None) ''sort | uniq |'' of
      Built b \<Rightarrow> map Args (cmds b) = [[''sort''], [''uniq'']] \<and> pipes b = 2
        \<and> Stdout (last (cmds b)) = PipeWriter 1
    | _ \<Rightarrow> False)
   \<and> executeCommand_build (\<lambda>k. None) (''ls |'' @ [CHR 0xC2, CHR 0xA0]) =
       executeCommand_build (\<lambda>k. None) ''ls |''"
  by (simp add: executeCommand_build_def go_strings exec_Command_def)

subsection \<open>Starting and waiting\<close>

text \<open>
  The first loop of \<open>runCommands\<close> starts the stages in order, up to the first one that
  fails to start.
\<close>

lemma start_loop_shape:
  "start_loop w i cs = (e, cs', evs) \<Longrightarrow>
   \<exists>m\<le>length cs. evs = map Start [i..<i + m] \<and> (e = None \<longrightarrow> m = length cs \<and> length cs' = length cs)"
proof (induction cs arbitrary: i e cs' evs)
  case Nil
  then show ?case by simp
next
  case (Cons c cs)
  show ?case
  proof (cases "start w i")
    case (Inl err)
    with Cons.prems show ?thesis by auto
  next
    case (Inr pid)
    obtain e1 cs1 evs1 where r: "start_loop w (i + 1) cs = (e1, cs1, evs1)"
      by (cases "start_loop w (i + 1) cs") auto
    from Cons.IH [OF r] obtain m where m: "m \<le> length cs" "evs1 = map Start [i + 1..<i + 1 + m]"
      "e1 = None \<longrightarrow> m = length cs \<and> length cs1 = length cs" by auto
    from Cons.prems Inr r have eq: "e = e1" "cs' = c\<lparr>Process := Some pid\<rparr> # cs1" "evs = Start i # evs1"
      by auto
    have "evs = map Start [i..<i + Suc m]"
      using eq m(2) by (simp add: upt_rec [of i])
    then show ?thesis using m eq by (intro exI [of _ "Suc m"]) auto
  qed
qed

lemma start_loop_fails:
  "k < length cs \<Longrightarrow> start w (i + k) = Inl err \<Longrightarrow> \<forall>j<k. \<exists>pid. start w (i + j) = Inr pid \<Longrightarrow>
   \<exists>cs'. start_loop w i cs = (Some (''error starting command: '' @ err), cs', map Start [i..<i + k])"
proof (induction cs arbitrary: i k)
  case Nil
  then show ?case by simp
next
  case (Cons c cs)
  show ?case
  proof (cases k)
    case 0
    with Cons.prems show ?thesis by simp
  next
    case (Suc k')
    from Cons.prems(3) Suc obtain pid where pid: "start w i = Inr pid" by force
    have "\<exists>cs'. start_loop w (i + 1) cs = (Some (''error starting command: '' @ err), cs', map Start [i + 1..<i + 1 + k'])"
      apply (rule Cons.IH)
      using Cons.prems Suc apply simp
      using Cons.prems Suc apply simp
      using Cons.prems(3) Suc by (metis Suc_less_eq add_Suc_right add_Suc_shift Suc_eq_plus1)
    then obtain cs' where "start_loop w (i + 1) cs = (Some (''error starting command: '' @ err), cs', map Start [i + 1..<i + 1 + k'])" by blast
    then show ?thesis using pid Suc by (simp add: upt_rec [of i])
  qed
qed

lemma started_stages_map_Start: "started_stages (map Start xs) = xs"
  by (induction xs) auto

lemma unreaped_map_Start: "unreaped (map Start xs) = xs"
  by (auto simp: unreaped_def started_stages_map_Start filter_id_conv)

text \<open>
  C2. In what \<open>runCommands\<close> does to the processes of a pipeline, a \<open>Wait\<close> on any
  stage comes after the \<open>Start\<close> of every stage of the pipeline: when there is a \<open>Wait\<close>
  at a position, each stage has its \<open>Start\<close> at an earlier position, and no \<open>Start\<close>
  stands at that position or later.
\<close>

theorem starts_before_waits:
  assumes "p < length (trace (runCommands w cs))"
    and "trace (runCommands w cs) ! p = Wait a"
  shows "(\<forall>k<length cs. \<exists>q<p. trace (runCommands w cs) ! q = Start k)
       \<and> (\<forall>q k. q < length (trace (runCommands w cs)) \<and> trace (runCommands w cs) ! q = Start k \<longrightarrow> q < p)"
proof -
  obtain e cs' evs where r: "start_loop w 0 cs = (e, cs', evs)"
    by (cases "start_loop w 0 cs") auto
  from start_loop_shape [OF r] obtain m where m: "m \<le> length cs" "evs = map Start [0..<m]"
    "e = None \<longrightarrow> m = length cs \<and> length cs' = length cs" by auto
  show ?thesis
  proof (cases e)
    case (Some err)
    with r m have "trace (runCommands w cs) = map Start [0..<m]" by (simp add: runCommands_def)
    with assms show ?thesis by auto
  next
    case None
    let ?ws = "arrivals w (length cs)"
    from None r m have t: "trace (runCommands w cs) = map Start [0..<length cs] @ map Wait ?ws"
      by (simp add: runCommands_def)
    have ge: "length cs \<le> p"
    proof (rule ccontr)
      assume "\<not> length cs \<le> p"
      then have "trace (runCommands w cs) ! p = Start p" by (simp add: t nth_append)
      with assms(2) show False by simp
    qed
    have a: "\<forall>k<length cs. \<exists>q<p. trace (runCommands w cs) ! q = Start k"
    proof (intro allI impI)
      fix k assume "k < length cs"
      then have "k < p \<and> trace (runCommands w cs) ! k = Start k" using ge by (simp add: t nth_append)
      then show "\<exists>q<p. trace (runCommands w cs) ! q = Start k" by blast
    qed
    have b: "\<forall>q k. q < length (trace (runCommands w cs)) \<and> trace (runCommands w cs) ! q = Start k \<longrightarrow> q < p"
    proof (intro allI impI)
      fix q k assume q: "q < length (trace (runCommands w cs)) \<and> trace (runCommands w cs) ! q = Start k"
      show "q < p"
      proof (rule ccontr)
        assume "\<not> q < p"
        then have le: "length cs \<le> q" using ge by simp
        from q have "q < length cs + length ?ws" by (simp add: t)
        with le have "q - length cs < length ?ws" by arith
        with le have "trace (runCommands w cs) ! q = Wait (?ws ! (q - length cs))"
          by (simp add: t nth_append)
        with q show False by simp
      qed
    qed
    from a b show ?thesis by blast
  qed
qed

lemma trace_working_world:
  "trace (runCommands working_world (cmds sort_uniq_wc)) =
     [Start 0, Start 1, Start 2, Wait 2, Wait 0, Wait 1]"
  by (simp add: runCommands_def working_world_def sort_uniq_wc_def arrivals_def)

theorem starts_before_waits_witness:
  "trace (runCommands working_world (cmds sort_uniq_wc)) ! 3 = Wait 2
     \<and> (\<exists>q<3. trace (runCommands working_world (cmds sort_uniq_wc)) ! q = Start 0)
     \<and> (\<exists>q<3. trace (runCommands working_world (cmds sort_uniq_wc)) ! q = Start 1)
     \<and> (\<exists>q<3. trace (runCommands working_world (cmds sort_uniq_wc)) ! q = Start 2)"
proof -
  have h1: "3 < length (trace (runCommands working_world (cmds sort_uniq_wc)))"
    by (simp add: trace_working_world)
  have h2: "trace (runCommands working_world (cmds sort_uniq_wc)) ! 3 = Wait 2"
    by (simp add: trace_working_world)
  have len: "length (cmds sort_uniq_wc) = 3" by (simp add: sort_uniq_wc_def)
  from starts_before_waits [OF h1 h2]
  have "\<forall>k<length (cmds sort_uniq_wc).
          \<exists>q<3. trace (runCommands working_world (cmds sort_uniq_wc)) ! q = Start k"
    by (rule conjunct1)
  then have all: "\<And>k. k < 3 \<Longrightarrow>
      \<exists>q<3. trace (runCommands working_world (cmds sort_uniq_wc)) ! q = Start k"
    by (simp add: len)
  have "(0::nat) < 3" and "(1::nat) < 3" and "(2::nat) < 3" by simp_all
  from this [THEN all] h2 show ?thesis by blast
qed

text \<open>
  C3, as the specification states it: when stage \<open>k\<close> fails to start, the stages
  \<open>0..k-1\<close> are ended and collected before the error is returned, so that no started
  process is left. The code returns at once. In the pipeline \<open>sort | uniq | wc\<close> with
  \<open>uniq\<close> not found, \<open>sort\<close> has been started and nothing waits for it or signals it.
\<close>

theorem launch_failure_counterexample:
  "returned (runCommands failing_world (cmds sort_uniq_wc)) =
     Some (Some ''error starting command: executable file not found in $PATH'')
   \<and> trace (runCommands failing_world (cmds sort_uniq_wc)) = [Start 0]
   \<and> unreaped (trace (runCommands failing_world (cmds sort_uniq_wc))) = [0]"
  by (simp add: runCommands_def failing_world_def working_world_def sort_uniq_wc_def unreaped_def)

text \<open>
  C3, amended. When stage \<open>k\<close> is the first stage that fails to start, \<open>runCommands\<close>
  returns the error of that \<open>Start\<close> at once: the stages \<open>0..k-1\<close> have been started and
  are left as they are, with no \<open>Wait\<close> on any of them, no later stage is started, and no
  \<open>handleSignals\<close> goroutine is created.
\<close>

theorem launch_failure_leaves_stages:
  assumes "k < length cs" and "start w k = Inl err" and "\<forall>j<k. \<exists>pid. start w j = Inr pid"
  shows "returned (runCommands w cs) = Some (Some (''error starting command: '' @ err))
       \<and> trace (runCommands w cs) = map Start [0..<k]
       \<and> unreaped (trace (runCommands w cs)) = [0..<k]
       \<and> handler (runCommands w cs) = None"
proof -
  from start_loop_fails [of k cs w 0 err] assms
  obtain cs' where "start_loop w 0 cs = (Some (''error starting command: '' @ err), cs', map Start [0..<k])"
    by auto
  then show ?thesis
    by (simp add: runCommands_def unreaped_map_Start)
qed

theorem launch_failure_leaves_stages_witness:
  "returned (runCommands failing_world (cmds sort_uniq_wc)) =
     Some (Some (''error starting command: '' @ ''executable file not found in $PATH''))
   \<and> trace (runCommands failing_world (cmds sort_uniq_wc)) = map Start [0..<1]
   \<and> unreaped (trace (runCommands failing_world (cmds sort_uniq_wc))) = [0..<1]
   \<and> handler (runCommands failing_world (cmds sort_uniq_wc)) = None"
proof -
  have h1: "1 < length (cmds sort_uniq_wc)" by (simp add: sort_uniq_wc_def)
  have h2: "start failing_world 1 = Inl ''executable file not found in $PATH''"
    by (simp add: failing_world_def)
  have h3: "\<forall>j<1. \<exists>pid. start failing_world j = Inr pid"
    by (simp add: failing_world_def)
  from launch_failure_leaves_stages [OF h1 h2 h3] show ?thesis .
qed

subsection \<open>The interrupt counter\<close>













subsection \<open>Empty stages\<close>

text \<open>
  C10. A piece of the input without a program name is passed over by the loop, and the
  claim is that the command then runs as the pipeline of the pieces that are left. For
  an empty piece at the end this is not what the loop builds: it decides with
  \<open>i < len(commands)-1\<close>, on the index among all pieces, whether a stage is the last
  one. On \<open>ls |\<close> the only stage \<open>ls\<close> gets a pipe as its standard output, which no
  stage reads, where the pipeline \<open>ls\<close> writes to the shell's standard output. An empty
  piece at the start or in the middle is passed over without a trace.
\<close>

theorem trailing_separator_loses_output:
  "executeCommand_build (\<lambda>k. None) ''ls |'' =
     Built \<lparr>inputPipe = PipeReader 0,
            cmds = [\<lparr>Args = [''ls''], Stdin = OsStdin, Stdout = PipeWriter 0,
                      Stderr = OsStderr, Process = None\<rparr>],
            pipes = 1\<rparr>
   \<and> executeCommand_build (\<lambda>k. None) ''ls'' =
     Built \<lparr>inputPipe = OsStdin,
            cmds = [\<lparr>Args = [''ls''], Stdin = OsStdin, Stdout = OsStdout,
                      Stderr = OsStderr, Process = None\<rparr>],
            pipes = 0\<rparr>
   \<and> executeCommand_build (\<lambda>k. None) ''| ls'' = executeCommand_build (\<lambda>k. None) ''ls''
   \<and> executeCommand_build (\<lambda>k. None) ''ls || wc'' = executeCommand_build (\<lambda>k. None) ''ls | wc''"
  by (simp add: executeCommand_build_def go_strings exec_Command_def)

section \<open>Properties of the job-control shell\<close>

subsection \<open>The effect of a step on the jobs\<close>

lemma same_jobs_refl [simp]: "same_jobs s s"
  by (simp add: same_jobs_def)

lemma changeDirectory_jobs_same:
  "changeDirectory_jobs w s parts = (err, s') \<Longrightarrow> same_jobs s s'"
  by (auto simp: changeDirectory_jobs_def Let_def same_jobs_def split: if_splits option.splits sum.splits)

lemma exportVar_same: "exportVar s parts = (err, s') \<Longrightarrow> same_jobs s s'"
  by (auto simp: exportVar_def same_jobs_def split: if_splits list.splits)

lemma setAlias_same: "setAlias s parts = (err, s') \<Longrightarrow> same_jobs s s'"
  by (auto simp: setAlias_def same_jobs_def split: if_splits list.splits)

lemma setVariable_same: "setVariable s parts = (err, s') \<Longrightarrow> same_jobs s s'"
  by (auto simp: setVariable_def same_jobs_def split: if_splits list.splits)

lemma runExternal_registers:
  "runExternal w s parts = Continue (err, s') \<Longrightarrow> same_jobs s s' \<or> registers s s'"
  by (auto simp: runExternal_def Let_def same_jobs_def registers_def
      split: list.splits if_splits sum.splits)

lemma foregroundJob_reclaims:
  assumes "foregroundJob w s parts = Continue (err, s')"
  shows "same_jobs s s' \<or> reclaims s s'"
proof (cases "length parts = 2")
  case False
  with assms show ?thesis by (simp add: foregroundJob_def)
next
  case len: True
  show ?thesis
  proof (cases "scan_d w (parts ! 1)")
    case None
    with assms len show ?thesis by (simp add: foregroundJob_def)
  next
    case (Some jid)
    show ?thesis
    proof (cases "jobs s jid")
      case None
      with assms len Some show ?thesis by (simp add: foregroundJob_def)
    next
      case a: (Some a)
      let ?c = "(cmd (heap s ! a))\<lparr>Stdin := OsStdin, Stdout := OsStdout, Stderr := OsStderr\<rparr>"
      from assms len Some a have open_chan: "\<not> stopChan (heap s ! a)"
        and s': "s' = s\<lparr>jobs := (jobs s)(jid := None),
                         heap := (heap s)[a := (heap s ! a)\<lparr>stopChan := True, cmd := ?c\<rparr>]\<rparr>"
        by (auto simp: foregroundJob_def Let_def split: if_splits)
      have "reclaims s s'"
        unfolding reclaims_def
        apply (rule exI [of _ jid], rule exI [of _ a], rule exI [of _ ?c])
        using a open_chan s' by simp
      then show ?thesis ..
    qed
  qed
qed

lemma backgroundJob_resumes:
  assumes "backgroundJob w s parts = (err, s')"
  shows "same_jobs s s' \<or> resumes s s'"
proof (cases "length parts = 2")
  case False
  with assms show ?thesis by (auto simp: backgroundJob_def)
next
  case len: True
  show ?thesis
  proof (cases "scan_d w (parts ! 1)")
    case None
    with assms len show ?thesis by (auto simp: backgroundJob_def)
  next
    case (Some jid)
    show ?thesis
    proof (cases "jobs s jid")
      case None
      with assms len Some show ?thesis by (auto simp: backgroundJob_def)
    next
      case a: (Some a)
      show ?thesis
      proof (cases "status (heap s ! a) = ''Stopped''")
        case False
        with assms len Some a show ?thesis by (auto simp: backgroundJob_def)
      next
        case True
        with assms len Some a
        have s': "s' = s\<lparr>heap := (heap s)[a := (heap s ! a)\<lparr>status := ''Running''\<rparr>]\<rparr>"
          by (auto simp: backgroundJob_def)
        have "resumes s s'"
          unfolding resumes_def
          apply (rule exI [of _ jid], rule exI [of _ a])
          using a True s' by simp
        then show ?thesis ..
      qed
    qed
  qed
qed

lemma executeCommand_switch_effect:
  assumes "executeCommand_switch w s parts = Continue (err, s')"
  shows "same_jobs s s' \<or> registers s s' \<or> reclaims s s' \<or> resumes s s'"
proof -
  from assms have "s' = s
       \<or> changeDirectory_jobs w s parts = (err, s')
       \<or> exportVar s parts = (err, s')
       \<or> setAlias s parts = (err, s')
       \<or> setVariable s parts = (err, s')
       \<or> foregroundJob w s parts = Continue (err, s')
       \<or> backgroundJob w s parts = (err, s')
       \<or> runExternal w s parts = Continue (err, s')"
    by (auto simp: executeCommand_switch_def split: list.splits if_splits)
  then show ?thesis
    by (auto dest: changeDirectory_jobs_same exportVar_same setAlias_same setVariable_same
        foregroundJob_reclaims backgroundJob_resumes runExternal_registers)
qed

lemma executeCommand_jobs_effect:
  assumes "executeCommand_jobs w s input = Continue (err, s')"
  shows "same_jobs s s' \<or> registers s s' \<or> reclaims s s' \<or> resumes s s'"
proof -
  from assms have "s' = s \<or> (\<exists>parts. executeCommand_switch w s parts = Continue (err, s'))"
    by (auto simp: executeCommand_jobs_def split: sum.splits if_splits option.splits)
  then show ?thesis by (auto dest: executeCommand_switch_effect)
qed

text \<open>The four relations look at the jobs only.\<close>

lemma effect_cong:
  assumes "heap t = heap s" "waiters t = waiters s" "children t = children s"
    "jobs t = jobs s" "nextJobID t = nextJobID s"
    and "heap t' = heap s'" "waiters t' = waiters s'" "children t' = children s'"
    "jobs t' = jobs s'" "nextJobID t' = nextJobID s'"
  shows "same_jobs t t' = same_jobs s s'" "registers t t' = registers s s'"
    "reclaims t t' = reclaims s s'" "resumes t t' = resumes s s'"
  using assms by (simp_all add: same_jobs_def registers_def reclaims_def resumes_def)

lemma Run_iteration_jobs_effect:
  assumes "Run_iteration_jobs w s r = Continue s'"
  shows "same_jobs s s' \<or> registers s s' \<or> reclaims s s' \<or> resumes s s'"
proof -
  from assms
  consider "s' = s\<lparr>interruptCount := incr (interruptCount s)\<rparr>" | "s' = s"
    | line err s1 where "executeCommand_jobs w (addToHistory s line) line = Continue (err, s1)"
        "s' = s1\<lparr>interruptCount := 0\<rparr>"
    by (auto simp: Run_iteration_jobs_def Let_def split: readline.splits if_splits outcome.splits)
  then show ?thesis
  proof cases
    case 1
    then show ?thesis by (simp add: same_jobs_def)
  next
    case 2
    then show ?thesis by simp
  next
    case 3
    let ?t = "addToHistory s line"
    have eq: "heap ?t = heap s" "waiters ?t = waiters s" "children ?t = children s"
      "jobs ?t = jobs s" "nextJobID ?t = nextJobID s"
      "heap s1 = heap s'" "waiters s1 = waiters s'" "children s1 = children s'"
      "jobs s1 = jobs s'" "nextJobID s1 = nextJobID s'"
      using 3(2) by (simp_all add: addToHistory_def Let_def)
    from executeCommand_jobs_effect [OF 3(1)] show ?thesis
      by (simp only: effect_cong [OF eq])
  qed
qed

lemma jstep_effect:
  assumes "jstep s e = Continue s'"
  shows "same_jobs s s' \<or> registers s s' \<or> reclaims s s' \<or> resumes s s'
       \<or> (\<exists>a c. s' = process_ends a c s) \<or> s' = reapChildren s
       \<or> (\<exists>a. s' = waitForJob_wait a s) \<or> (\<exists>a. s' = waitForJob_select a s)
       \<or> (\<exists>a. s' = waitForJob_report a s)"
proof (cases e)
  case (Read w r)
  with assms have "Run_iteration_jobs w s r = Continue s'" by (simp add: jstep_def)
  from Run_iteration_jobs_effect [OF this] show ?thesis by blast
next
  case (Signalled sig)
  with assms have "s' = s \<or> s' = reapChildren s"
    by (cases sig) (simp_all add: jstep_def handleSignals_jobs_def)
  then show ?thesis by auto
next
  case (Ends a c)
  with assms show ?thesis by (auto simp: jstep_def)
next
  case (WaitReturns a)
  with assms show ?thesis by (auto simp: jstep_def)
next
  case (Select a)
  with assms show ?thesis by (auto simp: jstep_def)
next
  case (Report a)
  with assms show ?thesis by (auto simp: jstep_def)
qed

subsection \<open>The invariants hold in every session\<close>

lemma status_of_not_Stopped: "status_of r \<noteq> ''Stopped''"
  by (cases r) (simp_all add: status_of_def)

lemma wrap64_incr: "incr (wrap64 x) = wrap64 (x + 1)"
proof -
  have "incr (wrap64 x) = ((x + 2 ^ 63) mod 2 ^ 64 + 1) mod 2 ^ 64 - 2 ^ 63"
    by (simp add: incr_def wrap64_def add.commute)
  also have "((x + 2 ^ 63) mod 2 ^ 64 + 1) mod 2 ^ 64 = (x + 2 ^ 63 + 1) mod 2 ^ 64"
    by (rule mod_add_left_eq)
  also have "(x + 2 ^ 63 + 1) mod 2 ^ 64 - 2 ^ 63 = wrap64 (x + 1)"
    by (simp add: wrap64_def add.commute add.left_commute)
  finally show ?thesis .
qed

lemma wrap64_id: "- (2 ^ 63) \<le> x \<Longrightarrow> x < 2 ^ 63 \<Longrightarrow> wrap64 x = x"
  by (simp add: wrap64_def)

lemma nth_update_field: "f x = f (xs ! a) \<Longrightarrow> f (xs[a := x] ! k) = f (xs ! k)"
proof (cases "a < length xs")
  case True
  assume "f x = f (xs ! a)"
  with True show ?thesis by (cases "k = a") simp_all
next
  case False
  then show ?thesis by (simp add: list_update_beyond)
qed

lemma job_inv_NewShell: "job_inv (NewShell hist file dir)"
  by (simp add: job_inv_def wf_shell_def ids_inv_def never_stopped_def running_inv_def
      NewShell_def wrap64_def)

lemma job_inv_same: "job_inv s \<Longrightarrow> same_jobs s s' \<Longrightarrow> job_inv s'"
  by (simp add: job_inv_def wf_shell_def ids_inv_def never_stopped_def running_inv_def
      same_jobs_def)

lemma job_inv_registers:
  assumes "job_inv s" and "registers s s'"
  shows "job_inv s'"
proof -
  from assms(2) obtain job where j: "status job = ''Running''" "jobID job = nextJobID s"
    "\<not> stopChan job" "heap s' = heap s @ [job]" "waiters s' = waiters s @ [Waiting]"
    "jobs s' = (jobs s)(nextJobID s \<mapsto> length (heap s))" "nextJobID s' = incr (nextJobID s)"
    "children s' = children s @ [Alive]"
    by (auto simp: registers_def)
  from assms(1) have wf: "wf_shell s" and ids: "ids_inv s" and ns: "never_stopped s"
    and ru: "running_inv s"
    by (simp_all add: job_inv_def)
  from wf have len: "length (waiters s) = length (heap s)" by (simp add: wf_shell_def)
  have "running_inv s'"
    using ru j len by (auto simp: running_inv_def nth_append less_Suc_eq)
  moreover have "\<And>jid a. jobs s' jid = Some a \<Longrightarrow>
      a < length (heap s') \<and> jobID (heap s' ! a) = jid \<and> \<not> stopChan (heap s' ! a)"
  proof -
    fix jid a assume new: "jobs s' jid = Some a"
    show "a < length (heap s') \<and> jobID (heap s' ! a) = jid \<and> \<not> stopChan (heap s' ! a)"
    proof (cases "jid = nextJobID s")
      case True
      with new j have "a = length (heap s)" by simp
      with True j show ?thesis by simp
    next
      case False
      with new j have "jobs s jid = Some a" by simp
      with wf have "a < length (heap s) \<and> jobID (heap s ! a) = jid \<and> \<not> stopChan (heap s ! a)"
        by (simp add: wf_shell_def)
      then show ?thesis using j by (simp add: nth_append)
    qed
  qed
  moreover have "length (waiters s') = length (heap s')"
    using wf j by (simp add: wf_shell_def)
  moreover have "length (children s') = length (heap s')"
    using wf j by (simp add: wf_shell_def)
  ultimately have "wf_shell s' \<and> running_inv s'" by (simp add: wf_shell_def)
  moreover have "ids_inv s'"
    using ids j by (auto simp: ids_inv_def nth_append wrap64_incr less_Suc_eq add.commute)
  moreover have "never_stopped s'"
    using ns j by (auto simp: never_stopped_def nth_append less_Suc_eq)
  ultimately show ?thesis by (simp add: job_inv_def)
qed

lemma job_inv_reclaims:
  assumes "job_inv s" and "reclaims s s'"
  shows "job_inv s'"
proof -
  from assms(2) obtain jid a c where r: "jobs s jid = Some a" "\<not> stopChan (heap s ! a)"
    "heap s' = (heap s)[a := (heap s ! a)\<lparr>stopChan := True, cmd := c\<rparr>]"
    "waiters s' = waiters s" "jobs s' = (jobs s)(jid := None)" "nextJobID s' = nextJobID s"
    "children s' = children s"
    by (auto simp: reclaims_def)
  from assms(1) have wf: "wf_shell s" and ids: "ids_inv s" and ns: "never_stopped s"
    and ru: "running_inv s"
    by (simp_all add: job_inv_def)
  have "running_inv s'"
    using ru r by (simp add: running_inv_def nth_update_field [where f = status])
  moreover have "\<And>jid' a'. jobs s' jid' = Some a' \<Longrightarrow>
      a' < length (heap s') \<and> jobID (heap s' ! a') = jid' \<and> \<not> stopChan (heap s' ! a')"
  proof -
    fix jid' a' assume "jobs s' jid' = Some a'"
    then have ne: "jid' \<noteq> jid" and old: "jobs s jid' = Some a'"
      using r(5) by (auto split: if_splits)
    from wf old have a': "a' < length (heap s)" "jobID (heap s ! a') = jid'"
      "\<not> stopChan (heap s ! a')" by (auto simp: wf_shell_def)
    from wf r(1) have "jobID (heap s ! a) = jid" by (auto simp: wf_shell_def)
    with a'(2) ne have "a' \<noteq> a" by auto
    then show "a' < length (heap s') \<and> jobID (heap s' ! a') = jid' \<and> \<not> stopChan (heap s' ! a')"
      using a' r(3) by simp
  qed
  moreover have "length (waiters s') = length (heap s')"
    using wf r by (simp add: wf_shell_def)
  moreover have "length (children s') = length (heap s')"
    using wf r by (simp add: wf_shell_def)
  ultimately have "wf_shell s' \<and> running_inv s'" by (simp add: wf_shell_def)
  moreover have "ids_inv s'"
    using ids r by (simp add: ids_inv_def nth_update_field [where f = jobID])
  moreover have "never_stopped s'"
    using ns r by (simp add: never_stopped_def nth_update_field [where f = status])
  ultimately show ?thesis by (simp add: job_inv_def)
qed

lemma job_inv_no_resumes:
  assumes "job_inv s"
  shows "\<not> resumes s s'"
proof
  assume "resumes s s'"
  then obtain jid a where "jobs s jid = Some a" "status (heap s ! a) = ''Stopped''"
    by (auto simp: resumes_def)
  with assms show False by (auto simp: job_inv_def wf_shell_def never_stopped_def)
qed

lemma job_inv_ends: "job_inv s \<Longrightarrow> job_inv (process_ends a c s)"
  by (simp add: job_inv_def wf_shell_def ids_inv_def never_stopped_def running_inv_def
      process_ends_def)

lemma job_inv_reap: "job_inv s \<Longrightarrow> job_inv (reapChildren s)"
  by (simp add: job_inv_def wf_shell_def ids_inv_def never_stopped_def running_inv_def
      reapChildren_def)

lemma job_inv_wait: "job_inv s \<Longrightarrow> job_inv (waitForJob_wait a s)"
  by (auto simp: job_inv_def wf_shell_def ids_inv_def never_stopped_def running_inv_def
      waitForJob_wait_def nth_list_update split: child.splits)

lemma job_inv_select: "job_inv s \<Longrightarrow> job_inv (waitForJob_select a s)"
  by (auto simp: job_inv_def wf_shell_def ids_inv_def never_stopped_def running_inv_def
      waitForJob_select_def nth_list_update split: waiter.splits)

lemma job_inv_report: "job_inv s \<Longrightarrow> job_inv (waitForJob_report a s)"
  by (auto simp: job_inv_def wf_shell_def ids_inv_def never_stopped_def running_inv_def
      waitForJob_report_def nth_list_update status_of_not_Stopped
      nth_update_field [where f = jobID] nth_update_field [where f = stopChan]
      split: waiter.splits)

lemma job_inv_jstep: "job_inv s \<Longrightarrow> jstep s e = Continue s' \<Longrightarrow> job_inv s'"
  by (drule jstep_effect)
     (auto dest: job_inv_same job_inv_registers job_inv_reclaims job_inv_no_resumes
        intro: job_inv_ends job_inv_reap job_inv_wait job_inv_select job_inv_report)

lemma job_inv_jsteps: "job_inv s \<Longrightarrow> jsteps s es = Continue s' \<Longrightarrow> job_inv s'"
proof (induction es arbitrary: s)
  case Nil
  then show ?case by simp
next
  case (Cons e es)
  then show ?case by (auto split: outcome.splits dest: job_inv_jstep)
qed

lemma job_inv_reachable: "jsteps (NewShell hist file dir) es = Continue s \<Longrightarrow> job_inv s"
  by (rule job_inv_jsteps [OF job_inv_NewShell])

subsection \<open>The goroutine of a job, step by step\<close>

lemma jsteps_append:
  "jsteps s (xs @ ys) = Continue s' \<Longrightarrow> \<exists>m. jsteps s xs = Continue m \<and> jsteps m ys = Continue s'"
  by (induction xs arbitrary: s) (auto split: outcome.splits)

lemma jsteps_Cons:
  "jsteps s (e # es) = Continue s' \<Longrightarrow> \<exists>m. jstep s e = Continue m \<and> jsteps m es = Continue s'"
  by (auto split: outcome.splits)

text \<open>What a step leaves of the job at an address.\<close>

lemma process_ends_fields [simp]:
  "heap (process_ends a c s) = heap s" "jobs (process_ends a c s) = jobs s"
  "nextJobID (process_ends a c s) = nextJobID s" "waiters (process_ends a c s) = waiters s"
  "length (children (process_ends a c s)) = length (children s)"
  by (simp_all add: process_ends_def)

lemma reapChildren_fields [simp]:
  "heap (reapChildren s) = heap s" "jobs (reapChildren s) = jobs s"
  "nextJobID (reapChildren s) = nextJobID s" "waiters (reapChildren s) = waiters s"
  "length (children (reapChildren s)) = length (children s)"
  by (simp_all add: reapChildren_def)

lemma waitForJob_wait_fields [simp]:
  "heap (waitForJob_wait a s) = heap s" "jobs (waitForJob_wait a s) = jobs s"
  "nextJobID (waitForJob_wait a s) = nextJobID s"
  "length (waiters (waitForJob_wait a s)) = length (waiters s)"
  "length (children (waitForJob_wait a s)) = length (children s)"
  by (simp_all add: waitForJob_wait_def split: child.splits)

lemma waitForJob_select_fields [simp]:
  "heap (waitForJob_select a s) = heap s" "jobs (waitForJob_select a s) = jobs s"
  "nextJobID (waitForJob_select a s) = nextJobID s"
  "length (waiters (waitForJob_select a s)) = length (waiters s)"
  "children (waitForJob_select a s) = children s"
  by (simp_all add: waitForJob_select_def split: waiter.splits)

lemma waitForJob_report_fields [simp]:
  "length (heap (waitForJob_report a s)) = length (heap s)" "jobs (waitForJob_report a s) = jobs s"
  "nextJobID (waitForJob_report a s) = nextJobID s"
  "length (waiters (waitForJob_report a s)) = length (waiters s)"
  "children (waitForJob_report a s) = children s"
  by (simp_all add: waitForJob_report_def split: waiter.splits)

lemma jstep_length:
  assumes "job_inv s" and "jstep s e = Continue s'" and "a < length (heap s)"
  shows "a < length (heap s')"
  using jstep_effect [OF assms(2)] assms(3)
  by (auto simp: same_jobs_def registers_def reclaims_def resumes_def)

lemma phases_jstep:
  assumes inv: "job_inv s" and step: "jstep s e = Continue s'" and a: "a < length (heap s)"
  shows "(back_from_wait a r s \<longrightarrow> back_from_wait a r s')
       \<and> (selected a r s \<longrightarrow> selected a r s')
       \<and> (reported a r s \<longrightarrow> reported a r s')"
proof -
  from inv have len: "length (waiters s) = length (heap s)" by (simp add: job_inv_def wf_shell_def)
  from jstep_effect [OF step]
  consider "same_jobs s s'" | "registers s s'" | "reclaims s s'"
    | a' where "s' = waitForJob_wait a' s" | a' where "s' = waitForJob_select a' s"
    | a' where "s' = waitForJob_report a' s"
    | a' c' where "s' = process_ends a' c' s" | "s' = reapChildren s"
    using job_inv_no_resumes [OF inv] by blast
  then show ?thesis
  proof cases
    case 1
    then show ?thesis by (simp add: same_jobs_def back_from_wait_def selected_def reported_def)
  next
    case 2
    then show ?thesis using a len
      by (auto simp: registers_def back_from_wait_def selected_def reported_def nth_append)
  next
    case 3
    then obtain a0 c where r: "heap s' = (heap s)[a0 := (heap s ! a0)\<lparr>stopChan := True, cmd := c\<rparr>]"
      "waiters s' = waiters s" by (auto simp: reclaims_def)
    have st: "status (heap s' ! a) = status (heap s ! a)"
      by (simp add: r nth_update_field [where f = status])
    have ch: "stopChan (heap s ! a) \<Longrightarrow> stopChan (heap s' ! a)"
      using a by (cases "a = a0") (simp_all add: r)
    show ?thesis using st ch r(2)
      by (auto simp: back_from_wait_def selected_def reported_def)
  next
    case 4
    then show ?thesis using a len
      by (cases "a' = a")
         (auto simp: waitForJob_wait_def back_from_wait_def selected_def reported_def
            split: child.splits)
  next
    case 5
    then show ?thesis using a len
      by (cases "a' = a")
         (auto simp: waitForJob_select_def back_from_wait_def selected_def reported_def
            split: waiter.splits)
  next
    case 6
    then show ?thesis using a len
      by (cases "a' = a")
         (auto simp: waitForJob_report_def back_from_wait_def selected_def reported_def
            split: waiter.splits)
  next
    case 7
    then show ?thesis by (simp add: back_from_wait_def selected_def reported_def)
  next
    case 8
    then show ?thesis by (simp add: back_from_wait_def selected_def reported_def)
  qed
qed

lemma phases_jsteps:
  assumes "job_inv s" and "jsteps s es = Continue s'" and "a < length (heap s)"
  shows "a < length (heap s') \<and> job_inv s'
       \<and> (back_from_wait a r s \<longrightarrow> back_from_wait a r s')
       \<and> (selected a r s \<longrightarrow> selected a r s')
       \<and> (reported a r s \<longrightarrow> reported a r s')"
  using assms
proof (induction es arbitrary: s)
  case Nil
  then show ?case by simp
next
  case (Cons e es)
  from jsteps_Cons [OF Cons.prems(2)] obtain m where m: "jstep s e = Continue m"
    "jsteps m es = Continue s'" by blast
  have im: "job_inv m" by (rule job_inv_jstep [OF Cons.prems(1) m(1)])
  have am: "a < length (heap m)" by (rule jstep_length [OF Cons.prems(1) m(1) Cons.prems(3)])
  from phases_jstep [OF Cons.prems(1) m(1) Cons.prems(3), of r] Cons.IH [OF im m(2) am]
  show ?case by blast
qed

lemma select_step:
  assumes "length (waiters s) = length (heap s)" and "a < length (heap s)"
    and "back_from_wait a r s"
  shows "selected a r (waitForJob_select a s)"
proof (cases "waiters s ! a")
  case (Returned r')
  with assms show ?thesis
    by (cases "stopChan (heap s ! a)")
       (simp_all add: waitForJob_select_def back_from_wait_def selected_def reported_def)
qed (use assms in \<open>simp_all add: waitForJob_select_def back_from_wait_def selected_def reported_def\<close>)

lemma report_step:
  assumes "length (waiters s) = length (heap s)" and "a < length (heap s)"
    and "selected a r s"
  shows "reported a r (waitForJob_report a s)"
proof (cases "waiters s ! a")
  case (Reporting r')
  with assms show ?thesis
    by (simp add: waitForJob_report_def selected_def reported_def)
qed (use assms in \<open>simp_all add: waitForJob_report_def selected_def reported_def\<close>)

subsection \<open>Job ids\<close>

lemma jstep_heap_grows:
  assumes "job_inv s" and "jstep s e = Continue s'"
  shows "length (heap s) \<le> length (heap s')"
  using jstep_effect [OF assms(2)]
  by (auto simp: same_jobs_def registers_def reclaims_def resumes_def)

lemma jsteps_heap_grows:
  "job_inv s \<Longrightarrow> jsteps s es = Continue s' \<Longrightarrow> length (heap s) \<le> length (heap s')"
proof (induction es arbitrary: s)
  case Nil
  then show ?case by simp
next
  case (Cons e es)
  from jsteps_Cons [OF Cons.prems(2)] obtain m where m: "jstep s e = Continue m"
    "jsteps m es = Continue s'" by blast
  from jstep_heap_grows [OF Cons.prems(1) m(1)] Cons.IH [OF job_inv_jstep [OF Cons.prems(1) m(1)] m(2)]
  show ?case by simp
qed

lemma ids_below_bound:
  assumes "ids_inv s" and "int (length (heap s)) < 2 ^ 63 - 1"
  shows "nextJobID s = 1 + int (length (heap s))"
    and "\<And>a. a < length (heap s) \<Longrightarrow> jobID (heap s ! a) = 1 + int a"
proof -
  show "nextJobID s = 1 + int (length (heap s))"
    using assms by (simp add: ids_inv_def wrap64_id)
  fix a assume "a < length (heap s)"
  with assms show "jobID (heap s ! a) = 1 + int a"
    by (simp add: ids_inv_def wrap64_id)
qed

text \<open>
  C5. \<open>heap\<close> holds the jobs of a session in the order of their registration, also
  those that \<open>fg\<close> has taken out of the table. In a session with fewer than
  \<open>2^63 - 1\<close> registrations (beyond that Go's \<open>int\<close> wraps around) the ids
  are 1, 2, 3, ... in this order: strictly increasing, hence never given twice, and the
  next one is larger than all of them. A registration gives \<open>nextJobID\<close> to the new job;
  whatever happens later in the session, the earlier jobs keep their ids and every later
  job gets an id that is not below the \<open>nextJobID\<close> of now. \<open>CreateJob\<close> of
  \<open>internal/shell\<close> counts in the same way from the 1 that \<open>New\<close> sets.
\<close>

theorem job_ids_increase:
  assumes "jsteps (NewShell hist file dir) es = Continue s"
    and "int (length (heap s)) < 2 ^ 63 - 1"
  shows "map jobID (heap s) = map (\<lambda>k. 1 + int k) [0..<length (heap s)]
       \<and> nextJobID s = 1 + int (length (heap s))
       \<and> sorted_wrt (<) (map jobID (heap s))
       \<and> distinct (map jobID (heap s))
       \<and> (\<forall>jid a. jobs s jid = Some a \<longrightarrow> jid = 1 + int a \<and> jid < nextJobID s)
       \<and> (\<forall>w parts err s'. runExternal w s parts = Continue (err, s') \<and> heap s' \<noteq> heap s \<longrightarrow>
            (\<exists>job. heap s' = heap s @ [job] \<and> jobID job = nextJobID s
               \<and> jobs s' (nextJobID s) = Some (length (heap s))))
       \<and> (\<forall>es' s'. jsteps s es' = Continue s' \<and> int (length (heap s')) < 2 ^ 63 - 1 \<longrightarrow>
            take (length (heap s)) (map jobID (heap s')) = map jobID (heap s)
            \<and> (\<forall>k. length (heap s) \<le> k \<and> k < length (heap s') \<longrightarrow> nextJobID s \<le> jobID (heap s' ! k)))
       \<and> nextJobID_i New = 1
       \<and> (\<forall>t c b. - (2 ^ 63) \<le> nextJobID_i t \<and> nextJobID_i t < 2 ^ 63 - 1 \<longrightarrow>
            ID (fst (CreateJob t c b)) = nextJobID_i t
            \<and> nextJobID_i (snd (CreateJob t c b)) = nextJobID_i t + 1)"
proof -
  have inv: "job_inv s" by (rule job_inv_reachable [OF assms(1)])
  then have ids: "ids_inv s" and wf: "wf_shell s" by (simp_all add: job_inv_def)
  note b = ids_below_bound [OF ids assms(2)]
  have m: "map jobID (heap s) = map (\<lambda>k. 1 + int k) [0..<length (heap s)]"
    by (rule nth_equalityI) (simp_all add: b(2))
  have srt: "sorted_wrt (<) (map jobID (heap s))"
    by (simp add: m sorted_wrt_map sorted_wrt_iff_nth_less)
  have dst: "distinct (map jobID (heap s))"
    by (simp add: m distinct_map inj_on_def)
  have tab: "\<forall>jid a. jobs s jid = Some a \<longrightarrow> jid = 1 + int a \<and> jid < nextJobID s"
  proof (intro allI impI)
    fix jid a assume "jobs s jid = Some a"
    with wf have "a < length (heap s)" "jobID (heap s ! a) = jid" by (auto simp: wf_shell_def)
    with b show "jid = 1 + int a \<and> jid < nextJobID s" by auto
  qed
  have reg: "\<forall>w parts err s'. runExternal w s parts = Continue (err, s') \<and> heap s' \<noteq> heap s \<longrightarrow>
            (\<exists>job. heap s' = heap s @ [job] \<and> jobID job = nextJobID s
               \<and> jobs s' (nextJobID s) = Some (length (heap s)))"
  proof (intro allI impI)
    fix w parts err s' assume "runExternal w s parts = Continue (err, s') \<and> heap s' \<noteq> heap s"
    with runExternal_registers [of w s parts err s'] have "registers s s'"
      by (auto simp: same_jobs_def)
    then show "\<exists>job. heap s' = heap s @ [job] \<and> jobID job = nextJobID s
               \<and> jobs s' (nextJobID s) = Some (length (heap s))"
      by (auto simp: registers_def)
  qed
  have later: "\<forall>es' s'. jsteps s es' = Continue s' \<and> int (length (heap s')) < 2 ^ 63 - 1 \<longrightarrow>
            take (length (heap s)) (map jobID (heap s')) = map jobID (heap s)
            \<and> (\<forall>k. length (heap s) \<le> k \<and> k < length (heap s') \<longrightarrow> nextJobID s \<le> jobID (heap s' ! k))"
  proof (intro allI impI)
    fix es' s' assume a: "jsteps s es' = Continue s' \<and> int (length (heap s')) < 2 ^ 63 - 1"
    then have inv': "job_inv s'" using inv by (auto dest: job_inv_jsteps)
    then have ids': "ids_inv s'" by (simp add: job_inv_def)
    from a have bound': "int (length (heap s')) < 2 ^ 63 - 1" by simp
    note b' = ids_below_bound [OF ids' bound']
    from a inv have le: "length (heap s) \<le> length (heap s')" by (auto dest: jsteps_heap_grows)
    have t: "take (length (heap s)) (map jobID (heap s')) = map jobID (heap s)"
      using le by (intro nth_equalityI) (simp_all add: b(2) b'(2))
    have "\<forall>k. length (heap s) \<le> k \<and> k < length (heap s') \<longrightarrow> nextJobID s \<le> jobID (heap s' ! k)"
      using b(1) b'(2) by auto
    with t show "take (length (heap s)) (map jobID (heap s')) = map jobID (heap s)
            \<and> (\<forall>k. length (heap s) \<le> k \<and> k < length (heap s') \<longrightarrow> nextJobID s \<le> jobID (heap s' ! k))"
      by simp
  qed
  have cj: "nextJobID_i New = 1
       \<and> (\<forall>t c b. - (2 ^ 63) \<le> nextJobID_i t \<and> nextJobID_i t < 2 ^ 63 - 1 \<longrightarrow>
            ID (fst (CreateJob t c b)) = nextJobID_i t
            \<and> nextJobID_i (snd (CreateJob t c b)) = nextJobID_i t + 1)"
    by (simp add: New_def CreateJob_def Let_def incr_def wrap64_id)
  from m b(1) srt dst tab reg later cj show ?thesis by blast
qed

text \<open>The definitions that evaluate a session of the examples.\<close>

lemmas job_eval =
  new_shell_def NewShell_def job_world_def Sscanf_d_def is_digit_def decimal_value_def
  digit_value_def jstep_def Run_iteration_jobs_def
  go_strings addToHistory_def maxHistorySize_def
  executeCommand_jobs_def executeCommand_switch_def runExternal_def exec_Command_def
  foregroundJob_def backgroundJob_def handleSignals_jobs_def reapChildren_def process_ends_def
  waitForJob_wait_def wait_status_def waitForJob_select_def
  waitForJob_report_def status_of_def fmt_d_def digit_def incr_def wrap64_def Let_def

theorem job_ids_increase_witness:
  "(case jsteps new_shell
           [Read job_world (Line ''sleep 5 &''), Read job_world (Line ''sleep 6 &''),
            Read job_world (Line ''fg 1''), Read job_world (Line ''sleep 7 &'')] of
      Continue s \<Rightarrow> map jobID (heap s) = [1, 2, 3] \<and> nextJobID s = 4 \<and> jobs s 1 = None
    | _ \<Rightarrow> False)"
proof -
  have "\<exists>s. jsteps new_shell
           [Read job_world (Line ''sleep 5 &''), Read job_world (Line ''sleep 6 &''),
            Read job_world (Line ''fg 1''), Read job_world (Line ''sleep 7 &'')] = Continue s
      \<and> length (heap s) = 3 \<and> jobs s 1 = None"
    by (simp add: job_eval)
  then obtain s where s: "jsteps (NewShell [] ''/home/u/.shell_history'' ''/'')
           [Read job_world (Line ''sleep 5 &''), Read job_world (Line ''sleep 6 &''),
            Read job_world (Line ''fg 1''), Read job_world (Line ''sleep 7 &'')] = Continue s"
    "length (heap s) = 3" "jobs s 1 = None"
    by (auto simp: new_shell_def)
  have bound: "int (length (heap s)) < 2 ^ 63 - 1" by (simp add: s(2))
  from job_ids_increase [OF s(1) bound]
  have "map jobID (heap s) = map (\<lambda>k. 1 + int k) [0..<length (heap s)]"
    and "nextJobID s = 1 + int (length (heap s))" by blast+
  then have "map jobID (heap s) = [1, 2, 3]" "nextJobID s = 4"
    by (simp_all add: s(2) upt_rec)
  with s show ?thesis by (simp add: new_shell_def)
qed

subsection \<open>The decimal notation of an exit code\<close>

lemma digit_of_less_10:
  assumes "k < 10"
  shows "is_digit (digit k) \<and> digit_value (digit k) = k \<and> (digit k = CHR ''0'' \<longrightarrow> k = 0)"
proof -
  from assms have "k \<in> {0, 1, 2, 3, 4, 5, 6, 7, 8, 9}" by auto
  then show ?thesis
    by (auto simp: digit_def is_digit_def digit_value_def)
qed

lemma decimal_value_snoc: "decimal_value (ds @ [ch]) = 10 * decimal_value ds + digit_value ch"
  by (simp add: decimal_value_def)

lemma fmt_nat_digit: "n < 10 \<Longrightarrow> fmt_nat fuel n = [digit n]"
  by (cases fuel) simp_all

lemma fmt_nat_decimal: "n < 10 ^ Suc fuel \<Longrightarrow> decimal_of_nat (fmt_nat fuel n) n"
proof (induction fuel arbitrary: n)
  case 0
  then have "n < 10" by simp
  with digit_of_less_10 [of n] show ?case
    by (simp add: decimal_of_nat_def decimal_value_def)
next
  case (Suc fuel)
  show ?case
  proof (cases "n < 10")
    case True
    with digit_of_less_10 [of n] show ?thesis
      by (simp add: decimal_of_nat_def decimal_value_def)
  next
    case False
    from Suc.prems have "n div 10 < 10 ^ Suc fuel" by (simp add: less_mult_imp_div_less)
    from Suc.IH [OF this] have ih: "decimal_of_nat (fmt_nat fuel (n div 10)) (n div 10)" .
    have d: "n mod 10 < 10" by simp
    from False have pos: "n div 10 \<noteq> 0" by simp
    from ih pos have nz: "hd (fmt_nat fuel (n div 10)) \<noteq> CHR ''0''"
      by (auto simp: decimal_of_nat_def decimal_value_def digit_value_def)
    from ih have ne: "fmt_nat fuel (n div 10) \<noteq> []" by (simp add: decimal_of_nat_def)
    show ?thesis
      using False ih ne nz digit_of_less_10 [OF d]
      by (simp add: decimal_of_nat_def decimal_value_snoc)
  qed
qed

lemma fmt_d_decimal:
  assumes "- (2 ^ 63) \<le> c" and "c < 2 ^ 63"
  shows "decimal_of (fmt_d c) c"
proof (cases "c < 0")
  case True
  with assms have "nat (- c) < 10 ^ Suc 19" by simp
  from fmt_nat_decimal [OF this] True show ?thesis
    by (simp add: decimal_of_def fmt_d_def)
next
  case False
  with assms have "nat c < 10 ^ Suc 19" by simp
  from fmt_nat_decimal [OF this] False show ?thesis
    by (simp add: decimal_of_def fmt_d_def)
qed

subsection \<open>The status that the goroutine of a job writes\<close>

text \<open>
  A process that has ended stays as it is, with the goroutine of its job in \<open>Wait\<close>,
  until \<open>Wait\<close> returns or \<open>handleSignals\<close> handles a \<open>SIGCHLD\<close>.
\<close>

lemma zombie_jstep:
  assumes inv: "job_inv s" and step: "jstep s e = Continue s'" and a: "a < length (heap s)"
    and z: "zombie a c s" and e: "e \<noteq> Signalled SIGCHLD" "e \<noteq> WaitReturns a"
  shows "zombie a c s'"
proof -
  from inv have len: "length (waiters s) = length (heap s)" "length (children s) = length (heap s)"
    by (simp_all add: job_inv_def wf_shell_def)
  show ?thesis
  proof (cases e)
    case (Read w r)
    with step have "Run_iteration_jobs w s r = Continue s'" by (simp add: jstep_def)
    from Run_iteration_jobs_effect [OF this] job_inv_no_resumes [OF inv]
    have "same_jobs s s' \<or> registers s s' \<or> reclaims s s'" by blast
    with z a len show ?thesis
      by (auto simp: same_jobs_def registers_def reclaims_def zombie_def nth_append)
  next
    case (Signalled sig)
    with step e(1) have "s' = s" by (cases sig) (simp_all add: jstep_def handleSignals_jobs_def)
    with z show ?thesis by simp
  next
    case (Ends a' c')
    with step z a len show ?thesis
      by (cases "a' = a") (auto simp: jstep_def process_ends_def zombie_def)
  next
    case (WaitReturns a')
    with e(2) have "a' \<noteq> a" by simp
    with WaitReturns step z a len show ?thesis
      by (auto simp: jstep_def waitForJob_wait_def zombie_def split: child.splits)
  next
    case (Select a')
    with step z a len show ?thesis
      by (cases "a' = a") (auto simp: jstep_def waitForJob_select_def zombie_def split: waiter.splits)
  next
    case (Report a')
    with step z a len show ?thesis
      by (cases "a' = a") (auto simp: jstep_def waitForJob_report_def zombie_def split: waiter.splits)
  qed
qed

lemma zombie_jsteps:
  assumes "job_inv s" and "jsteps s es = Continue s'" and "a < length (heap s)"
    and "zombie a c s" and "Signalled SIGCHLD \<notin> set es" and "WaitReturns a \<notin> set es"
  shows "zombie a c s'"
  using assms
proof (induction es arbitrary: s)
  case Nil
  then show ?case by simp
next
  case (Cons e es)
  from jsteps_Cons [OF Cons.prems(2)] obtain m where m: "jstep s e = Continue m"
    "jsteps m es = Continue s'" by blast
  have im: "job_inv m" by (rule job_inv_jstep [OF Cons.prems(1) m(1)])
  have am: "a < length (heap m)" by (rule jstep_length [OF Cons.prems(1) m(1) Cons.prems(3)])
  have zm: "zombie a c m"
    by (rule zombie_jstep [OF Cons.prems(1) m(1) Cons.prems(3,4)]) (use Cons.prems(5,6) in auto)
  show ?case by (rule Cons.IH [OF im m(2) am zm]) (use Cons.prems(5,6) in auto)
qed

text \<open>\<open>Wait\<close> on a process that has ended and is not collected returns its exit status.\<close>

lemma wait_collects:
  assumes "job_inv s" and "a < length (heap s)" and "ended a c s"
  shows "back_from_wait a (wait_status c) (waitForJob_wait a s)"
proof -
  from assms(1) have len: "length (waiters s) = length (heap s)" "length (children s) = length (heap s)"
    by (simp_all add: job_inv_def wf_shell_def)
  from assms(3) show ?thesis
  proof (unfold ended_def, elim disjE)
    assume "zombie a c s"
    with assms(2) len show ?thesis
      by (simp add: zombie_def waitForJob_wait_def back_from_wait_def)
  next
    assume "back_from_wait a (wait_status c) s"
    with assms(2) len show ?thesis
      by (auto simp: waitForJob_wait_def back_from_wait_def selected_def reported_def
          split: child.splits)
  qed
qed

lemma ended_jstep:
  assumes inv: "job_inv s" and step: "jstep s e = Continue s'" and a: "a < length (heap s)"
    and en: "ended a c s" and e: "e \<noteq> Signalled SIGCHLD"
  shows "ended a c s'"
proof (cases "e = WaitReturns a")
  case True
  with step have "s' = waitForJob_wait a s" by (simp add: jstep_def)
  with wait_collects [OF inv a en] show ?thesis by (simp add: ended_def)
next
  case False
  from en show ?thesis
  proof (unfold ended_def, elim disjE)
    assume "zombie a c s"
    from zombie_jstep [OF inv step a this e False] show "zombie a c s' \<or> back_from_wait a (wait_status c) s'" ..
  next
    assume "back_from_wait a (wait_status c) s"
    with phases_jstep [OF inv step a, of "wait_status c"]
    show "zombie a c s' \<or> back_from_wait a (wait_status c) s'" by simp
  qed
qed

lemma ended_jsteps:
  assumes "job_inv s" and "jsteps s es = Continue s'" and "a < length (heap s)"
    and "ended a c s" and "Signalled SIGCHLD \<notin> set es"
  shows "ended a c s'"
  using assms
proof (induction es arbitrary: s)
  case Nil
  then show ?case by simp
next
  case (Cons e es)
  from jsteps_Cons [OF Cons.prems(2)] obtain m where m: "jstep s e = Continue m"
    "jsteps m es = Continue s'" by blast
  have im: "job_inv m" by (rule job_inv_jstep [OF Cons.prems(1) m(1)])
  have am: "a < length (heap m)" by (rule jstep_length [OF Cons.prems(1) m(1) Cons.prems(3)])
  have em: "ended a c m"
    by (rule ended_jstep [OF Cons.prems(1) m(1) Cons.prems(3,4)]) (use Cons.prems(5) in auto)
  show ?case by (rule Cons.IH [OF im m(2) am em]) (use Cons.prems(5) in auto)
qed

text \<open>
  Once the process is collected with the goroutine of its job in \<open>Wait\<close>, that
  \<open>Wait\<close> can only return the error.
\<close>

lemma reaped_jstep:
  assumes inv: "job_inv s" and step: "jstep s e = Continue s'" and a: "a < length (heap s)"
    and re: "reaped a s"
  shows "reaped a s'"
proof -
  from inv have len: "length (waiters s) = length (heap s)" "length (children s) = length (heap s)"
    by (simp_all add: job_inv_def wf_shell_def)
  from re show ?thesis
  proof (unfold reaped_def, elim disjE)
    assume g: "children s ! a = Collected \<and> waiters s ! a = Waiting"
    show "(children s' ! a = Collected \<and> waiters s' ! a = Waiting) \<or> back_from_wait a WaitFailed s'"
    proof (cases e)
      case (Read w r)
      with step have "Run_iteration_jobs w s r = Continue s'" by (simp add: jstep_def)
      from Run_iteration_jobs_effect [OF this] job_inv_no_resumes [OF inv]
      have "same_jobs s s' \<or> registers s s' \<or> reclaims s s'" by blast
      with g a len show ?thesis
        by (auto simp: same_jobs_def registers_def reclaims_def nth_append)
    next
      case (Signalled sig)
      with step g a len show ?thesis
        by (cases sig) (auto simp: jstep_def handleSignals_jobs_def reapChildren_def)
    next
      case (Ends a' c')
      with step g a len show ?thesis
        by (cases "a' = a") (auto simp: jstep_def process_ends_def)
    next
      case (WaitReturns a')
      with step g a len show ?thesis
        by (cases "a' = a")
           (auto simp: jstep_def waitForJob_wait_def back_from_wait_def split: child.splits)
    next
      case (Select a')
      with step g a len show ?thesis
        by (cases "a' = a") (auto simp: jstep_def waitForJob_select_def split: waiter.splits)
    next
      case (Report a')
      with step g a len show ?thesis
        by (cases "a' = a") (auto simp: jstep_def waitForJob_report_def split: waiter.splits)
    qed
  next
    assume "back_from_wait a WaitFailed s"
    with phases_jstep [OF inv step a, of WaitFailed]
    show "(children s' ! a = Collected \<and> waiters s' ! a = Waiting) \<or> back_from_wait a WaitFailed s'"
      by simp
  qed
qed

lemma reaped_jsteps:
  assumes "job_inv s" and "jsteps s es = Continue s'" and "a < length (heap s)"
    and "reaped a s"
  shows "reaped a s'"
  using assms
proof (induction es arbitrary: s)
  case Nil
  then show ?case by simp
next
  case (Cons e es)
  from jsteps_Cons [OF Cons.prems(2)] obtain m where m: "jstep s e = Continue m"
    "jsteps m es = Continue s'" by blast
  have im: "job_inv m" by (rule job_inv_jstep [OF Cons.prems(1) m(1)])
  have am: "a < length (heap m)" by (rule jstep_length [OF Cons.prems(1) m(1) Cons.prems(3)])
  have rm: "reaped a m" by (rule reaped_jstep [OF Cons.prems(1) m(1) Cons.prems(3,4)])
  show ?case by (rule Cons.IH [OF im m(2) am rm])
qed

lemma wait_fails:
  assumes "job_inv s" and "a < length (heap s)" and "reaped a s"
  shows "back_from_wait a WaitFailed (waitForJob_wait a s)"
proof -
  from assms(1) have len: "length (waiters s) = length (heap s)" "length (children s) = length (heap s)"
    by (simp_all add: job_inv_def wf_shell_def)
  from assms(3) show ?thesis
  proof (unfold reaped_def, elim disjE)
    assume "children s ! a = Collected \<and> waiters s ! a = Waiting"
    with assms(2) len show ?thesis
      by (simp add: waitForJob_wait_def back_from_wait_def)
  next
    assume "back_from_wait a WaitFailed s"
    with assms(2) len show ?thesis
      by (auto simp: waitForJob_wait_def back_from_wait_def selected_def reported_def
          split: child.splits)
  qed
qed

text \<open>
  From the return of \<open>Wait\<close> with \<open>r\<close> on: after the \<open>select\<close> and the \<open>default\<close>
  branch, a job that is still in the table has the status for \<open>r\<close>.
\<close>

lemma report_after_wait:
  assumes inv: "job_inv m" and a: "a < length (heap m)" and p: "back_from_wait a r m"
    and run: "jsteps m (es2 @ Select a # es3 @ Report a # es4) = Continue s'"
    and tab: "jobs s' jid = Some a"
  shows "status (heap s' ! a) = status_of r"
proof -
  from jsteps_append [OF run] obtain s2 where s2: "jsteps m es2 = Continue s2"
    "jsteps s2 (Select a # es3 @ Report a # es4) = Continue s'" by blast
  from phases_jsteps [OF inv s2(1) a, of r] p
  have a2: "a < length (heap s2)" and inv2: "job_inv s2" and p2: "back_from_wait a r s2" by auto
  from inv2 have len2: "length (waiters s2) = length (heap s2)" by (simp add: job_inv_def wf_shell_def)
  let ?s3 = "waitForJob_select a s2"
  from jsteps_Cons [OF s2(2)] have run3: "jsteps ?s3 (es3 @ Report a # es4) = Continue s'"
    by (simp add: jstep_def)
  have inv3: "job_inv ?s3" by (rule job_inv_select [OF inv2])
  have a3: "a < length (heap ?s3)" using a2 by simp
  have p3: "selected a r ?s3" by (rule select_step [OF len2 a2 p2])
  from jsteps_append [OF run3] obtain s4 where s4: "jsteps ?s3 es3 = Continue s4"
    "jsteps s4 (Report a # es4) = Continue s'" by blast
  from phases_jsteps [OF inv3 s4(1) a3, of r] p3
  have a4: "a < length (heap s4)" and inv4: "job_inv s4" and p4: "selected a r s4" by auto
  from inv4 have len4: "length (waiters s4) = length (heap s4)" by (simp add: job_inv_def wf_shell_def)
  let ?s5 = "waitForJob_report a s4"
  from jsteps_Cons [OF s4(2)] have run5: "jsteps ?s5 es4 = Continue s'"
    by (simp add: jstep_def)
  have inv5: "job_inv ?s5" by (rule job_inv_report [OF inv4])
  have a5: "a < length (heap ?s5)" using a4 by simp
  have p5: "reported a r ?s5" by (rule report_step [OF len4 a4 p4])
  from phases_jsteps [OF inv5 run5 a5, of r] p5
  have inv': "job_inv s'" and p': "reported a r s'" by auto
  from inv' tab have "\<not> stopChan (heap s' ! a)" by (auto simp: job_inv_def wf_shell_def)
  with p' show ?thesis by (simp add: reported_def)
qed

text \<open>
  C6, as the specification states it: a background job that is not reclaimed and
  whose process ends with an exit code \<open>c\<close> other than 0 gets the status
  \<open>Exited (c)\<close>. The goroutine of the job and \<open>reapChildren\<close>, which \<open>handleSignals\<close>
  runs on \<open>SIGCHLD\<close>, both collect the process, and the exit status goes to the one
  that comes first. When the process of \<open>make &\<close> ends with the exit code 2 and
  \<open>reapChildren\<close> comes first, \<open>Wait\<close> returns an error that is no
  \<open>*exec.ExitError\<close>, and the job, still in the table, gets the status \<open>Errored\<close>.
\<close>

theorem reaper_takes_exit_status:
  "(case jsteps new_shell
           [Read job_world (Line ''make &''), Ends 0 2, Signalled SIGCHLD, WaitReturns 0,
            Select 0, Report 0] of
      Continue s \<Rightarrow>
        jobs s 1 = Some 0 \<and> status (heap s ! 0) = ''Errored''
        \<and> status (heap s ! 0) \<noteq> ''Exited (2)''
    | _ \<Rightarrow> False)"
  by (simp add: job_eval)

text \<open>
  C6, amended. A registration appends a job with the status \<open>Running\<close>, and a job
  whose goroutine is still in \<open>Wait\<close> has that status. Let the process of the job
  end with the exit code \<open>c\<close> (\<open>-1\<close> for a process that a signal ended), let its
  goroutine then return from \<open>Wait\<close> and run the \<open>select\<close> and the \<open>default\<close>
  branch, at any later points of the session, and let the job be in the table
  afterwards (\<open>fg\<close> has not reclaimed it). When \<open>handleSignals\<close> has handled no
  \<open>SIGCHLD\<close> between the end of the process and the return of \<open>Wait\<close>, the status
  is \<open>Done\<close> for \<open>c = 0\<close> and otherwise \<open>Exited (\<close>\<open>c\<close>\<open>)\<close> with \<open>c\<close> in decimal
  notation. When it has handled one, \<open>Wait\<close> cannot retrieve the exit status any more,
  and the status is \<open>Errored\<close>.
\<close>

theorem waiter_reports_status:
  assumes "jsteps (NewShell hist file dir) es0 = Continue s"
    and "a < length (heap s)"
    and "waiters s ! a = Waiting"
    and "children s ! a = Alive"
    and "jsteps s (Ends a c # es1 @ WaitReturns a # es2 @ Select a # es3 @ Report a # es4) = Continue s'"
    and "jobs s' jid = Some a"
    and "- (2 ^ 63) \<le> c" and "c < 2 ^ 63"
  shows "status (heap s ! a) = ''Running''
       \<and> (Signalled SIGCHLD \<notin> set es1 \<and> c = 0 \<longrightarrow> status (heap s' ! a) = ''Done'')
       \<and> (Signalled SIGCHLD \<notin> set es1 \<and> c \<noteq> 0 \<longrightarrow>
            (\<exists>ds. status (heap s' ! a) = ''Exited ('' @ ds @ '')'' \<and> ds = fmt_d c \<and> decimal_of ds c))
       \<and> (Signalled SIGCHLD \<in> set es1 \<and> WaitReturns a \<notin> set es1 \<longrightarrow>
            status (heap s' ! a) = ''Errored'')
       \<and> (\<forall>w0 parts err s1. runExternal w0 s parts = Continue (err, s1) \<and> heap s1 \<noteq> heap s \<longrightarrow>
            (\<exists>job. heap s1 = heap s @ [job] \<and> status job = ''Running''))"
proof -
  have inv: "job_inv s" by (rule job_inv_reachable [OF assms(1)])
  then have "running_inv s" by (simp add: job_inv_def)
  with assms(2,3) have running: "status (heap s ! a) = ''Running''" by (simp add: running_inv_def)
  from inv have len: "length (waiters s) = length (heap s)" "length (children s) = length (heap s)"
    by (simp_all add: job_inv_def wf_shell_def)
  let ?s1 = "process_ends a c s"
  from jsteps_Cons [OF assms(5)]
  have run1: "jsteps ?s1 (es1 @ WaitReturns a # es2 @ Select a # es3 @ Report a # es4) = Continue s'"
    by (simp add: jstep_def)
  have inv1: "job_inv ?s1" by (rule job_inv_ends [OF inv])
  have a1: "a < length (heap ?s1)" using assms(2) by simp
  have z1: "zombie a c ?s1"
    using assms(2,3,4) len by (simp add: zombie_def process_ends_def)
  from jsteps_append [OF run1] obtain m where m: "jsteps ?s1 es1 = Continue m"
    "jsteps m (WaitReturns a # es2 @ Select a # es3 @ Report a # es4) = Continue s'" by blast
  from phases_jsteps [OF inv1 m(1) a1, of WaitNil]
  have am: "a < length (heap m)" and invm: "job_inv m" by auto
  let ?m1 = "waitForJob_wait a m"
  from jsteps_Cons [OF m(2)]
  have runm: "jsteps ?m1 (es2 @ Select a # es3 @ Report a # es4) = Continue s'"
    by (simp add: jstep_def)
  have invm1: "job_inv ?m1" by (rule job_inv_wait [OF invm])
  have am1: "a < length (heap ?m1)" using am by simp
  have first: "Signalled SIGCHLD \<notin> set es1 \<Longrightarrow> status (heap s' ! a) = status_of (wait_status c)"
  proof -
    assume quiet: "Signalled SIGCHLD \<notin> set es1"
    from z1 have "ended a c ?s1" by (simp add: ended_def)
    from ended_jsteps [OF inv1 m(1) a1 this quiet] have "ended a c m" .
    from wait_collects [OF invm am this] have "back_from_wait a (wait_status c) ?m1" .
    from report_after_wait [OF invm1 am1 this runm assms(6)] show ?thesis .
  qed
  have late: "Signalled SIGCHLD \<in> set es1 \<Longrightarrow> WaitReturns a \<notin> set es1 \<Longrightarrow>
      status (heap s' ! a) = status_of WaitFailed"
  proof -
    assume sig: "Signalled SIGCHLD \<in> set es1" and nowait: "WaitReturns a \<notin> set es1"
    from split_list_first [OF sig] obtain xs ys where
      es1: "es1 = xs @ Signalled SIGCHLD # ys" and xs: "Signalled SIGCHLD \<notin> set xs" by blast
    from nowait es1 have nw: "WaitReturns a \<notin> set xs" by simp
    from m(1) es1 have "jsteps ?s1 (xs @ Signalled SIGCHLD # ys) = Continue m" by simp
    from jsteps_append [OF this] obtain u where u: "jsteps ?s1 xs = Continue u"
      "jsteps u (Signalled SIGCHLD # ys) = Continue m" by blast
    from phases_jsteps [OF inv1 u(1) a1, of WaitNil]
    have au: "a < length (heap u)" and invu: "job_inv u" by auto
    from zombie_jsteps [OF inv1 u(1) a1 z1 xs nw] have zu: "zombie a c u" .
    from invu have lenu: "length (children u) = length (heap u)"
      by (simp add: job_inv_def wf_shell_def)
    let ?u1 = "reapChildren u"
    from jsteps_Cons [OF u(2)] have runu: "jsteps ?u1 ys = Continue m"
      by (simp add: jstep_def handleSignals_jobs_def)
    have invu1: "job_inv ?u1" by (rule job_inv_reap [OF invu])
    have au1: "a < length (heap ?u1)" using au by simp
    have "reaped a ?u1"
      using zu au lenu by (simp add: reaped_def zombie_def reapChildren_def)
    from reaped_jsteps [OF invu1 runu au1 this] have "reaped a m" .
    from wait_fails [OF invm am this] have "back_from_wait a WaitFailed ?m1" .
    from report_after_wait [OF invm1 am1 this runm assms(6)] show ?thesis .
  qed
  have reg: "\<forall>w0 parts err s1. runExternal w0 s parts = Continue (err, s1) \<and> heap s1 \<noteq> heap s \<longrightarrow>
            (\<exists>job. heap s1 = heap s @ [job] \<and> status job = ''Running'')"
  proof (intro allI impI)
    fix w0 parts err s1
    assume "runExternal w0 s parts = Continue (err, s1) \<and> heap s1 \<noteq> heap s"
    with runExternal_registers [of w0 s parts err s1] have "registers s s1"
      by (auto simp: same_jobs_def)
    then show "\<exists>job. heap s1 = heap s @ [job] \<and> status job = ''Running''"
      by (auto simp: registers_def)
  qed
  have fin: "Signalled SIGCHLD \<notin> set es1 \<and> c = 0 \<longrightarrow> status (heap s' ! a) = ''Done''"
    using first by (simp add: status_of_def wait_status_def)
  have exited: "Signalled SIGCHLD \<notin> set es1 \<and> c \<noteq> 0 \<longrightarrow>
      (\<exists>ds. status (heap s' ! a) = ''Exited ('' @ ds @ '')'' \<and> ds = fmt_d c \<and> decimal_of ds c)"
    using first fmt_d_decimal [OF assms(7,8)] by (simp add: status_of_def wait_status_def)
  have errored: "Signalled SIGCHLD \<in> set es1 \<and> WaitReturns a \<notin> set es1 \<longrightarrow>
      status (heap s' ! a) = ''Errored''"
    using late by (simp add: status_of_def)
  from running fin exited errored reg show ?thesis by blast
qed

theorem waiter_reports_status_witness:
  "(case jsteps new_shell [Read job_world (Line ''make &'')] of
      Continue s \<Rightarrow>
        waiters s ! 0 = Waiting \<and> children s ! 0 = Alive \<and> status (heap s ! 0) = ''Running''
        \<and> (case jsteps s [Ends 0 2, WaitReturns 0, Select 0, Report 0] of
              Continue s' \<Rightarrow> jobs s' 1 = Some 0 \<and> status (heap s' ! 0) = ''Exited (2)''
            | _ \<Rightarrow> False)
        \<and> (case jsteps s [Ends 0 0, WaitReturns 0, Select 0, Report 0] of
              Continue s' \<Rightarrow> jobs s' 1 = Some 0 \<and> status (heap s' ! 0) = ''Done''
            | _ \<Rightarrow> False)
    | _ \<Rightarrow> False)"
proof -
  have "\<exists>s. jsteps new_shell [Read job_world (Line ''make &'')] = Continue s
      \<and> length (heap s) = 1 \<and> waiters s ! 0 = Waiting \<and> children s ! 0 = Alive
      \<and> (\<exists>s'. jsteps s (Ends 0 2 # [] @ WaitReturns 0 # [] @ Select 0 # [] @ Report 0 # []) = Continue s'
            \<and> jobs s' 1 = Some 0)
      \<and> (\<exists>s'. jsteps s (Ends 0 0 # [] @ WaitReturns 0 # [] @ Select 0 # [] @ Report 0 # []) = Continue s'
            \<and> jobs s' 1 = Some 0)"
    by (simp add: job_eval)
  then obtain s s' s'' where s: "jsteps (NewShell [] ''/home/u/.shell_history'' ''/'')
      [Read job_world (Line ''make &'')] = Continue s"
    "length (heap s) = 1" "waiters s ! 0 = Waiting" "children s ! 0 = Alive"
    "jsteps s (Ends 0 2 # [] @ WaitReturns 0 # [] @ Select 0 # [] @ Report 0 # []) = Continue s'"
    "jobs s' 1 = Some 0"
    "jsteps s (Ends 0 0 # [] @ WaitReturns 0 # [] @ Select 0 # [] @ Report 0 # []) = Continue s''"
    "jobs s'' 1 = Some 0"
    by (auto simp: new_shell_def)
  have a: "0 < length (heap s)" by (simp add: s(2))
  have r2: "- (2 ^ 63) \<le> (2::int)" "(2::int) < 2 ^ 63" by simp_all
  have r0: "- (2 ^ 63) \<le> (0::int)" "(0::int) < 2 ^ 63" by simp_all
  from waiter_reports_status [OF s(1) a s(3) s(4) s(5) s(6) r2]
  have "status (heap s ! 0) = ''Running''" "status (heap s' ! 0) = ''Exited (2)''"
    by (simp_all add: fmt_d_def fmt_nat_digit digit_def)
  moreover from waiter_reports_status [OF s(1) a s(3) s(4) s(7) s(8) r0]
  have "status (heap s'' ! 0) = ''Done''" by simp
  ultimately show ?thesis using s by (simp add: new_shell_def)
qed

subsection \<open>The streams of a background launch\<close>

text \<open>
  C7, as the specification states it: a background launch detaches the standard input
  and the standard output of the child and leaves its standard error connected to the
  shell's. \<open>runExternal\<close> sets all three fields to \<open>nil\<close>: the standard error of
  \<open>sleep 5 &\<close> is not the shell's.
\<close>

theorem background_stderr_counterexample:
  "(case runExternal job_world new_shell [''sleep'', ''5'', ''&''] of
      Continue (err, s) \<Rightarrow> Stderr (cmd (heap s ! 0)) = NilStream
        \<and> Stderr (cmd (heap s ! 0)) \<noteq> OsStderr
    | _ \<Rightarrow> False)"
  by (simp add: job_eval)

text \<open>
  C7, amended. A background launch whose \<open>Start\<close> succeeds registers a job whose
  command has the standard input, the standard output and the standard error all set to
  \<open>nil\<close>; the process of the job runs and its goroutine is in \<open>Wait\<close>.
\<close>

theorem background_streams_detached:
  assumes "start_bg w = Inr pid"
  shows "runExternal w s (name # args @ [''&'']) =
           Continue (None,
             s\<lparr>jobs := (jobs s)(nextJobID s \<mapsto> length (heap s)),
               nextJobID := incr (nextJobID s),
               heap := heap s @
                 [\<lparr>cmd = \<lparr>Args = name # args, Stdin = NilStream, Stdout = NilStream,
                           Stderr = NilStream, Process = Some pid\<rparr>,
                   status = ''Running'', jobID = nextJobID s, stopChan = False\<rparr>],
               waiters := waiters s @ [Waiting],
               children := children s @ [Alive]\<rparr>)"
proof -
  have "(name # args @ [''&'']) ! (length (name # args @ [''&'']) - 1) = ''&''"
    by (simp add: nth_append)
  moreover have "butlast (name # args @ [''&'']) = name # args"
    by (simp add: butlast_append)
  ultimately show ?thesis
    using assms by (simp add: runExternal_def Let_def exec_Command_def del: butlast.simps)
qed

theorem background_streams_detached_witness:
  "runExternal job_world new_shell [''sleep'', ''5'', ''&''] =
     Continue (None,
       new_shell\<lparr>jobs := [1 \<mapsto> 0], nextJobID := 2,
         heap := [\<lparr>cmd = \<lparr>Args = [''sleep'', ''5''], Stdin = NilStream, Stdout = NilStream,
                           Stderr = NilStream, Process = Some 4242\<rparr>,
                   status = ''Running'', jobID = 1, stopChan = False\<rparr>],
         waiters := [Waiting], children := [Alive]\<rparr>)"
proof -
  have h: "start_bg job_world = Inr 4242" by (simp add: job_world_def)
  from background_streams_detached [OF h, of new_shell "''sleep''" "[''5'']"]
  show ?thesis by (simp add: new_shell_def NewShell_def incr_def wrap64_def)
qed

subsection \<open>\<open>bg\<close> on a registered job\<close>

text \<open>
  C9. In no state of a session has a job the status \<open>Stopped\<close>: a registration
  writes \<open>Running\<close>, a goroutine writes \<open>Done\<close>, \<open>Exited (c)\<close> or \<open>Errored\<close>,
  and \<open>handleSignals\<close> does nothing to the shell on \<open>SIGTSTP\<close>. So \<open>bg\<close> with the id
  of a job in the table returns the error \<open>bg: job is not stopped\<close> and leaves the
  shell as it is.
\<close>

theorem bg_on_registered_job_fails:
  assumes "jsteps (NewShell hist file dir) es = Continue s"
    and "jobs s jid = Some a"
    and "scan_d w arg = Some jid"
  shows "(\<forall>k<length (heap s). status (heap s ! k) \<noteq> ''Stopped'')
       \<and> (\<forall>r. status_of r \<noteq> ''Stopped'')
       \<and> handleSignals_jobs SIGTSTP s = s
       \<and> backgroundJob w s [''bg'', arg] = (Some ''bg: job is not stopped'', s)
       \<and> executeCommand_switch w s [''bg'', arg] = Continue (Some ''bg: job is not stopped'', s)"
proof -
  have inv: "job_inv s" by (rule job_inv_reachable [OF assms(1)])
  then have ns: "never_stopped s" and wf: "wf_shell s" by (simp_all add: job_inv_def)
  from wf assms(2) have "a < length (heap s)" by (auto simp: wf_shell_def)
  with ns have st: "status (heap s ! a) \<noteq> ''Stopped''" by (simp add: never_stopped_def)
  have bg: "backgroundJob w s [''bg'', arg] = (Some ''bg: job is not stopped'', s)"
    using assms(2,3) st by (simp add: backgroundJob_def)
  then have "executeCommand_switch w s [''bg'', arg] = Continue (Some ''bg: job is not stopped'', s)"
    by (simp add: executeCommand_switch_def)
  with ns bg show ?thesis
    by (simp add: never_stopped_def handleSignals_jobs_def status_of_not_Stopped)
qed

theorem bg_on_registered_job_fails_witness:
  "(case jsteps new_shell [Read job_world (Line ''sleep 5 &'')] of
      Continue s \<Rightarrow>
        jobs s 1 = Some 0 \<and> scan_d job_world ''1'' = Some 1
        \<and> status (heap s ! 0) = ''Running''
        \<and> backgroundJob job_world s [''bg'', ''1''] = (Some ''bg: job is not stopped'', s)
    | _ \<Rightarrow> False)"
proof -
  have "\<exists>s. jsteps new_shell [Read job_world (Line ''sleep 5 &'')] = Continue s
      \<and> jobs s 1 = Some 0 \<and> status (heap s ! 0) = ''Running''"
    by (simp add: job_eval)
  then obtain s where s: "jsteps (NewShell [] ''/home/u/.shell_history'' ''/'')
      [Read job_world (Line ''sleep 5 &'')] = Continue s"
    "jobs s 1 = Some 0" "status (heap s ! 0) = ''Running''"
    by (auto simp: new_shell_def)
  have sc: "scan_d job_world ''1'' = Some 1" by (simp add: job_eval)
  from bg_on_registered_job_fails [OF s(1) s(2) sc] s sc
  show ?thesis by (simp add: new_shell_def)
qed

subsection \<open>Reclaiming a job while its goroutine runs\<close>

text \<open>
  C4, as the specification states it: the accesses to the table exclude one another,
  and once a job is reclaimed no status is written to it. The code takes no lock, and
  the goroutine of a job does not read \<open>stopChan\<close> and write the status in one step.
  When \<open>fg 1\<close> runs between the two, the job is out of the table with its \<open>stopChan\<close>
  closed, and the goroutine then writes \<open>Done\<close> to it (the process of \<open>sleep 5\<close>
  has ended with the exit code 0).
\<close>

theorem late_reclaim_counterexample:
  "(case jsteps new_shell
           [Read job_world (Line ''sleep 5 &''), Ends 0 0, WaitReturns 0, Select 0,
            Read job_world (Line ''fg 1'')] of
      Continue s \<Rightarrow>
        jobs s 1 = None \<and> stopChan (heap s ! 0) \<and> status (heap s ! 0) = ''Running''
        \<and> (case jsteps s [Report 0] of
              Continue s' \<Rightarrow> jobs s' 1 = None \<and> status (heap s' ! 0) = ''Done''
            | _ \<Rightarrow> False)
    | _ \<Rightarrow> False)"
  by (simp add: job_eval)

lemma stopped_in_time_jstep:
  assumes inv: "job_inv s" and step: "jstep s e = Continue s'" and a: "a < length (heap s)"
    and st: "stopped_in_time a st s"
  shows "stopped_in_time a st s'"
proof -
  from inv have len: "length (waiters s) = length (heap s)" by (simp add: job_inv_def wf_shell_def)
  from jstep_effect [OF step]
  consider "same_jobs s s'" | "registers s s'" | "reclaims s s'"
    | a' where "s' = waitForJob_wait a' s" | a' where "s' = waitForJob_select a' s"
    | a' where "s' = waitForJob_report a' s"
    | a' c' where "s' = process_ends a' c' s" | "s' = reapChildren s"
    using job_inv_no_resumes [OF inv] by blast
  then show ?thesis
  proof cases
    case 1
    with st show ?thesis by (simp add: same_jobs_def stopped_in_time_def)
  next
    case 2
    with st a len show ?thesis by (auto simp: registers_def stopped_in_time_def nth_append)
  next
    case 3
    then obtain a0 c where r: "\<not> stopChan (heap s ! a0)"
      "heap s' = (heap s)[a0 := (heap s ! a0)\<lparr>stopChan := True, cmd := c\<rparr>]"
      "waiters s' = waiters s" by (auto simp: reclaims_def)
    from r(1) st have "a0 \<noteq> a" by (auto simp: stopped_in_time_def)
    with st r show ?thesis by (simp add: stopped_in_time_def)
  next
    case 4
    with st a len show ?thesis
      by (cases "a' = a") (auto simp: waitForJob_wait_def stopped_in_time_def split: child.splits)
  next
    case 5
    with st a len show ?thesis
      by (cases "a' = a")
         (auto simp: waitForJob_select_def stopped_in_time_def split: waiter.splits)
  next
    case 6
    with st a len show ?thesis
      by (cases "a' = a")
         (auto simp: waitForJob_report_def stopped_in_time_def split: waiter.splits)
  next
    case 7
    with st show ?thesis by (simp add: stopped_in_time_def)
  next
    case 8
    with st show ?thesis by (simp add: stopped_in_time_def)
  qed
qed

lemma stopped_in_time_jsteps:
  assumes "job_inv s" and "jsteps s es = Continue s'" and "a < length (heap s)"
    and "stopped_in_time a st s"
  shows "stopped_in_time a st s'"
  using assms
proof (induction es arbitrary: s)
  case Nil
  then show ?case by simp
next
  case (Cons e es)
  from jsteps_Cons [OF Cons.prems(2)] obtain m where m: "jstep s e = Continue m"
    "jsteps m es = Continue s'" by blast
  have im: "job_inv m" by (rule job_inv_jstep [OF Cons.prems(1) m(1)])
  have am: "a < length (heap m)" by (rule jstep_length [OF Cons.prems(1) m(1) Cons.prems(3)])
  have sm: "stopped_in_time a st m"
    by (rule stopped_in_time_jstep [OF Cons.prems(1) m(1) Cons.prems(3,4)])
  show ?case by (rule Cons.IH [OF im m(2) am sm])
qed

text \<open>
  C4, amended. \<open>fg\<close> with the id of a job in the table, whose goroutine has not yet
  gone into the \<open>default\<close> branch of its \<open>select\<close>, takes the job out of the table and
  closes its \<open>stopChan\<close>; from then on, whatever the session does, the status of that job
  stays what it was. The goroutines of the jobs and \<open>handleSignals\<close> never change the
  table; \<open>handleSignals\<close> changes no field of the shell at all, only which processes
  are collected.
\<close>

theorem reclaim_stops_waiter:
  assumes "jsteps (NewShell hist file dir) es0 = Continue s"
    and "jobs s jid = Some a"
    and "scan_d w arg = Some jid"
    and "\<forall>r. waiters s ! a \<noteq> Reporting r"
  shows "(\<exists>s1. foregroundJob w s [''fg'', arg] = Continue (None, s1)
            \<and> jobs s1 jid = None \<and> stopChan (heap s1 ! a)
            \<and> status (heap s1 ! a) = status (heap s ! a)
            \<and> (\<forall>es s'. jsteps s1 es = Continue s' \<longrightarrow>
                  status (heap s' ! a) = status (heap s ! a)))
       \<and> (\<forall>t a'. jobs (waitForJob_wait a' t) = jobs t
              \<and> jobs (waitForJob_select a' t) = jobs t
              \<and> jobs (waitForJob_report a' t) = jobs t)
       \<and> (\<forall>t sig. handleSignals_jobs sig t = t\<lparr>children := children (handleSignals_jobs sig t)\<rparr>)"
proof -
  have inv: "job_inv s" by (rule job_inv_reachable [OF assms(1)])
  then have wf: "wf_shell s" by (simp add: job_inv_def)
  from wf assms(2) have a: "a < length (heap s)" and op: "\<not> stopChan (heap s ! a)"
    by (auto simp: wf_shell_def)
  let ?c = "(cmd (heap s ! a))\<lparr>Stdin := OsStdin, Stdout := OsStdout, Stderr := OsStderr\<rparr>"
  let ?s1 = "s\<lparr>jobs := (jobs s)(jid := None),
               heap := (heap s)[a := (heap s ! a)\<lparr>stopChan := True, cmd := ?c\<rparr>]\<rparr>"
  have fg: "foregroundJob w s [''fg'', arg] = Continue (None, ?s1)"
    using assms(2,3) op by (simp add: foregroundJob_def Let_def)
  from foregroundJob_reclaims [OF fg] inv have inv1: "job_inv ?s1"
    by (auto dest: job_inv_same job_inv_reclaims)
  have a1: "a < length (heap ?s1)" using a by simp
  have st1: "stopped_in_time a (status (heap s ! a)) ?s1"
    using a assms(4) by (simp add: stopped_in_time_def)
  have later: "\<forall>es s'. jsteps ?s1 es = Continue s' \<longrightarrow> status (heap s' ! a) = status (heap s ! a)"
  proof (intro allI impI)
    fix es s' assume "jsteps ?s1 es = Continue s'"
    from stopped_in_time_jsteps [OF inv1 this a1 st1]
    show "status (heap s' ! a) = status (heap s ! a)" by (simp add: stopped_in_time_def)
  qed
  have first: "\<exists>s1. foregroundJob w s [''fg'', arg] = Continue (None, s1)
            \<and> jobs s1 jid = None \<and> stopChan (heap s1 ! a)
            \<and> status (heap s1 ! a) = status (heap s ! a)
            \<and> (\<forall>es s'. jsteps s1 es = Continue s' \<longrightarrow>
                  status (heap s' ! a) = status (heap s ! a))"
    apply (rule exI [of _ ?s1])
    using fg later a by simp
  have sig: "\<forall>t sig. handleSignals_jobs sig t = t\<lparr>children := children (handleSignals_jobs sig t)\<rparr>"
    by (simp add: handleSignals_jobs_def reapChildren_def split: signal.splits)
  from first sig show ?thesis by simp
qed

theorem reclaim_stops_waiter_witness:
  "(case jsteps new_shell [Read job_world (Line ''sleep 5 &''), Ends 0 0, WaitReturns 0] of
      Continue s \<Rightarrow>
        jobs s 1 = Some 0 \<and> waiters s ! 0 = Returned WaitNil
        \<and> (case foregroundJob job_world s [''fg'', ''1''] of
              Continue (err, s1) \<Rightarrow>
                (case jsteps s1 [Select 0, Report 0] of
                   Continue s' \<Rightarrow> jobs s' 1 = None \<and> status (heap s' ! 0) = ''Running''
                 | _ \<Rightarrow> False)
            | _ \<Rightarrow> False)
    | _ \<Rightarrow> False)"
proof -
  have "\<exists>s. jsteps new_shell [Read job_world (Line ''sleep 5 &''), Ends 0 0, WaitReturns 0] = Continue s
      \<and> jobs s 1 = Some 0 \<and> waiters s ! 0 = Returned WaitNil \<and> status (heap s ! 0) = ''Running''
      \<and> (\<exists>s1. foregroundJob job_world s [''fg'', ''1''] = Continue (None, s1)
            \<and> (\<exists>s'. jsteps s1 [Select 0, Report 0] = Continue s' \<and> jobs s' 1 = None))"
    by (simp add: job_eval)
  then obtain s s1 s' where s: "jsteps (NewShell [] ''/home/u/.shell_history'' ''/'')
      [Read job_world (Line ''sleep 5 &''), Ends 0 0, WaitReturns 0] = Continue s"
    "jobs s 1 = Some 0" "waiters s ! 0 = Returned WaitNil" "status (heap s ! 0) = ''Running''"
    "foregroundJob job_world s [''fg'', ''1''] = Continue (None, s1)"
    "jsteps s1 [Select 0, Report 0] = Continue s'" "jobs s' 1 = None"
    by (auto simp: new_shell_def)
  have sc: "scan_d job_world ''1'' = Some 1" by (simp add: job_eval)
  have nr: "\<forall>r. waiters s ! 0 \<noteq> Reporting r" by (simp add: s(3))
  from reclaim_stops_waiter [OF s(1) s(2) sc nr] s(5)
  have "\<forall>es s'. jsteps s1 es = Continue s' \<longrightarrow> status (heap s' ! 0) = status (heap s ! 0)"
    by auto
  with s(6) have "status (heap s' ! 0) = status (heap s ! 0)" by blast
  with s show ?thesis by (simp add: new_shell_def)
qed

end
